theory Spec2Isabelle
  imports Main "HOL-Library.Word"
begin

section \<open>The VGA colour palette (class VGA, kernel/barrier.h lines 415-480)\<close>

text \<open>
  \<^verbatim>\<open>uint8_t palette[192] = { 0x00, 0x00, 0x00,  0x00, 0x00, 0x55, ... }\<close>:
  the member array of class \<^verbatim>\<open>VGA\<close>, byte for byte, one source line (one RGB triple)
  per line.
\<close>

type_synonym u8 = "8 word"
type_synonym u16 = "16 word"
type_synonym u32 = "32 word"

type_synonym rgb = "u8 \<times> u8 \<times> u8"

definition palette :: "u8 list" where
  "palette = [
     0x00, 0x00, 0x00,
     0x00, 0x00, 0x55,
     0x00, 0x00, 0xAA,
     0x00, 0x00, 0xFF,
     0x00, 0x55, 0x00,
     0x00, 0x55, 0x55,
     0x00, 0x55, 0xAA,
     0x00, 0x55, 0xFF,
     0x00, 0xAA, 0x00,
     0x00, 0xAA, 0x55,
     0x00, 0xAA, 0xAA,
     0x00, 0xAA, 0xFF,
     0x00, 0xFF, 0x00,
     0x00, 0xFF, 0x55,
     0x00, 0xFF, 0xAA,
     0x00, 0xFF, 0xFF,
     0x55, 0x00, 0x00,
     0x55, 0x00, 0x55,
     0x55, 0x00, 0xAA,
     0x55, 0x00, 0xFF,
     0x55, 0x55, 0x00,
     0x55, 0x55, 0x55,
     0x55, 0x55, 0xAA,
     0x55, 0x55, 0xFF,
     0x55, 0xAA, 0x00,
     0x55, 0xAA, 0x55,
     0x55, 0xAA, 0xAA,
     0x55, 0xAA, 0xFF,
     0x55, 0xFF, 0x00,
     0x55, 0xFF, 0x55,
     0x55, 0xFF, 0xAA,
     0x55, 0xFF, 0xFF,
     0xAA, 0x00, 0x00,
     0xAA, 0x00, 0x55,
     0xAA, 0x00, 0xAA,
     0xAA, 0x00, 0xFF,
     0xAA, 0x55, 0x00,
     0xAA, 0x55, 0x55,
     0xAA, 0x55, 0xAA,
     0xAA, 0x55, 0xFF,
     0xAA, 0xAA, 0x00,
     0xAA, 0xAA, 0x55,
     0xAA, 0xAA, 0xAA,
     0xAA, 0xAA, 0xFF,
     0xAA, 0xFF, 0x00,
     0xAA, 0xFF, 0x55,
     0xAA, 0xFF, 0xAA,
     0xAA, 0xFF, 0xFF,
     0xFF, 0x00, 0x00,
     0xFF, 0x00, 0x55,
     0xFF, 0x00, 0xAA,
     0xFF, 0x00, 0xFF,
     0xFF, 0x55, 0x00,
     0xFF, 0x55, 0x55,
     0xFF, 0x55, 0xAA,
     0xFF, 0x55, 0xFF,
     0xFF, 0xAA, 0x00,
     0xFF, 0xAA, 0x55,
     0xFF, 0xAA, 0xAA,
     0xFF, 0xAA, 0xFF,
     0xFF, 0xFF, 0x00,
     0xFF, 0xFF, 0x55,
     0xFF, 0xFF, 0xAA,
     0xFF, 0xFF, 0xFF
  ]"

text \<open>
  The array read three bytes at a time, in red, green, blue order (the order in which
  the DAC takes them): entry \<open>i\<close> is \<^verbatim>\<open>palette[3*i]\<close>, \<^verbatim>\<open>palette[3*i + 1]\<close>,
  \<^verbatim>\<open>palette[3*i + 2]\<close>. Past the end of the array there is no entry.
\<close>

fun triples :: "u8 list \<Rightarrow> rgb list" where
  "triples (r # g # b # rest) = (r, g, b) # triples rest"
| "triples _ = []"

definition paletteRGB :: "nat \<Rightarrow> rgb option" where
  "paletteRGB i =
     (if i < length (triples palette) then Some (triples palette ! i) else None)"

text \<open>
  \<^verbatim>\<open>uint8_t getColor(uint8_t r, uint8_t g, uint8_t b);\<close>

  Modelled from the spec: the body of \<^verbatim>\<open>VGA::getColor\<close> (class \<^verbatim>\<open>VGA\<close> declares it; the
  file that defines it is not among the sources). "\<^verbatim>\<open>getColor(r,g,b)\<close> performs a
  nearest-match search over the 64-entry palette (exact algorithm: minimize a distance
  metric over the three channels; ties broken by lowest palette index)". The spec
  names no metric, so the metric is the parameter \<open>dist\<close>. The search visits the
  entries in index order and keeps the best index and its distance; a later entry
  replaces it only when strictly nearer.
\<close>

fun nearest :: "(rgb \<Rightarrow> nat) \<Rightarrow> rgb list \<Rightarrow> nat \<Rightarrow> (nat \<times> nat) option \<Rightarrow> (nat \<times> nat) option" where
  "nearest d [] i best = best"
| "nearest d (c # cs) i best =
     nearest d cs (Suc i)
       (case best of
          None \<Rightarrow> Some (i, d c)
        | Some (bi, bd) \<Rightarrow> if d c < bd then Some (i, d c) else Some (bi, bd))"

definition getColor :: "(rgb \<Rightarrow> rgb \<Rightarrow> nat) \<Rightarrow> u8 \<Rightarrow> u8 \<Rightarrow> u8 \<Rightarrow> u8" where
  "getColor dist r g b =
     (case nearest (dist (r, g, b)) (triples palette) 0 None of
        None \<Rightarrow> 0
      | Some (i, _) \<Rightarrow> of_nat i)"

text \<open>
  A metric for the examples: the squared Euclidean distance of the channels.
\<close>

definition chan_diff :: "u8 \<Rightarrow> u8 \<Rightarrow> nat" where
  "chan_diff a b = (if unat a \<le> unat b then unat b - unat a else unat a - unat b)"

definition sq_dist :: "rgb \<Rightarrow> rgb \<Rightarrow> nat" where
  "sq_dist p q =
     (case (p, q) of
        ((r, g, b), (r', g', b')) \<Rightarrow>
          chan_diff r r' * chan_diff r r' + chan_diff g g' * chan_diff g g'
          + chan_diff b b' * chan_diff b b')"

section \<open>The indexed register ports (kernel/barrier.h lines 92-111)\<close>

text \<open>
  \<^verbatim>\<open>
  #define SEQ_INDEX 0x3C4
  #define SEQ_RW 0x3C5
  #define GRAPHICS_CTRL_INDEX 0x3CE
  #define GRAPHICS_CTRL_RW 0x3CF
  #define CRTC_COLOR_INDEX 0x3D4 // if MISC_WRITE[0] is set
  #define CRTC_COLOR_WRITE 0x3D5
  #define CRTC_MONOCHROME_INDEX 0x3B4 // if MISC_WRITE[0] == 0
  #define CRTC_MONOCHROME_WRITE 0x3B5
  \<close>
  An x86 I/O port address is 16 bits wide.
\<close>

definition SEQ_INDEX :: u16 where "SEQ_INDEX = 0x3C4"
definition SEQ_RW :: u16 where "SEQ_RW = 0x3C5"
definition GRAPHICS_CTRL_INDEX :: u16 where "GRAPHICS_CTRL_INDEX = 0x3CE"
definition GRAPHICS_CTRL_RW :: u16 where "GRAPHICS_CTRL_RW = 0x3CF"
definition CRTC_COLOR_INDEX :: u16 where "CRTC_COLOR_INDEX = 0x3D4"
definition CRTC_COLOR_WRITE :: u16 where "CRTC_COLOR_WRITE = 0x3D5"
definition CRTC_MONOCHROME_INDEX :: u16 where "CRTC_MONOCHROME_INDEX = 0x3B4"
definition CRTC_MONOCHROME_WRITE :: u16 where "CRTC_MONOCHROME_WRITE = 0x3B5"

text \<open>
  The four indexed register groups, with the ports the \<^verbatim>\<open>VGA\<close> members
  \<^verbatim>\<open>seq_port\<close>, \<^verbatim>\<open>graphics_ctrl\<close>, \<^verbatim>\<open>crt_ctrl_color\<close> and \<^verbatim>\<open>crt_ctrl_mono\<close> stand for.
\<close>

datatype reg_group = Sequencer | GraphicsController | CrtcColor | CrtcMono

fun index_port :: "reg_group \<Rightarrow> u16" where
  "index_port Sequencer = SEQ_INDEX"
| "index_port GraphicsController = GRAPHICS_CTRL_INDEX"
| "index_port CrtcColor = CRTC_COLOR_INDEX"
| "index_port CrtcMono = CRTC_MONOCHROME_INDEX"

fun data_port :: "reg_group \<Rightarrow> u16" where
  "data_port Sequencer = SEQ_RW"
| "data_port GraphicsController = GRAPHICS_CTRL_RW"
| "data_port CrtcColor = CRTC_COLOR_WRITE"
| "data_port CrtcMono = CRTC_MONOCHROME_WRITE"

text \<open>
  Modelled from the spec: the indexed write (the register-programming code and the
  \<^verbatim>\<open>Port\<close> class of port.h are not among the sources). "\<^verbatim>\<open>write(index, value)\<close>:
  writes the index byte to the group's index port, then the data byte to the group's
  data port". The bus traffic is the list of byte writes, oldest first.
\<close>

datatype port_write = Outb u16 u8

definition indexed_write :: "reg_group \<Rightarrow> u8 \<Rightarrow> u8 \<Rightarrow> port_write list \<Rightarrow> port_write list" where
  "indexed_write grp index v bus = bus @ [Outb (index_port grp) index] @ [Outb (data_port grp) v]"

section \<open>The playback coordinator (class VGA, kernel/barrier.h lines 214-278)\<close>

text \<open>
  \<^verbatim>\<open>
  volatile bool playing = 0;
  volatile bool new_song = 1;
  Atomic<uint32_t> elapsed_time {0};
  Shared<File_Node> curr;
  \<close>
  The members of \<^verbatim>\<open>VGA\<close> that make up the playback state. \<^verbatim>\<open>Shared<File_Node>\<close> is a
  nullable shared reference: \<open>None\<close> is the null reference, and \<open>'f\<close> is whatever
  names a file node.
\<close>

record 'f playback =
  playing :: bool
  new_song :: bool
  elapsed_time :: u32
  curr :: "'f option"

datatype play_state = Stopped | Playing | Paused

text \<open>
  Modelled from the spec: "States: {Stopped, Playing, Paused}"; the "current file
  reference is null exactly when no song is loaded".
\<close>

definition play_state_of :: "'f playback \<Rightarrow> play_state" where
  "play_state_of v =
     (case curr v of
        None \<Rightarrow> Stopped
      | Some _ \<Rightarrow> if playing v then Playing else Paused)"

text \<open>
  \<^verbatim>\<open>void spotify(Shared<File_Node> song, bool willPlay);\<close>

  Modelled from the spec: the body of \<^verbatim>\<open>VGA::spotify\<close> (declared in class \<^verbatim>\<open>VGA\<close>,
  defined in a file that is not among the sources). "\<^verbatim>\<open>spotify(file, willPlay)\<close> loads a new file
  reference, resets elapsed time to zero, sets \<^verbatim>\<open>new_song\<close>, and enters Playing or
  Paused per \<^verbatim>\<open>willPlay\<close>."
\<close>

definition spotify :: "'f \<Rightarrow> bool \<Rightarrow> 'f playback \<Rightarrow> 'f playback" where
  "spotify song willPlay v =
     v\<lparr>curr := Some song, elapsed_time := 0, new_song := True, playing := willPlay\<rparr>"

text \<open>
  \<^verbatim>\<open>void play_pause();\<close>

  Modelled from the spec: the body of \<^verbatim>\<open>VGA::play_pause\<close> (not among the sources).
  "\<^verbatim>\<open>play_pause()\<close> toggles Playing \<open>\<leftrightarrow>\<close> Paused without changing the loaded file or
  resetting elapsed time"; "operating on a null/absent current file is a no-op".
\<close>

definition play_pause :: "'f playback \<Rightarrow> 'f playback" where
  "play_pause v =
     (case curr v of
        None \<Rightarrow> v
      | Some _ \<Rightarrow> v\<lparr>playing := \<not> playing v\<rparr>)"

text \<open>
  \<^verbatim>\<open>void playingSong(uint32_t);\<close>

  Modelled from the spec: the body of \<^verbatim>\<open>VGA::playingSong\<close> (not among the sources).
  "While Playing, it advances the elapsed-time counter by \<^verbatim>\<open>tick_delta\<close>"; "while Paused
  or Stopped, ticks are accepted but do not advance elapsed time". The counter is an
  \<^verbatim>\<open>Atomic<uint32_t>\<close>: the addition is 32-bit.
\<close>

definition playingSong :: "u32 \<Rightarrow> 'f playback \<Rightarrow> 'f playback" where
  "playingSong tick_delta v =
     (if play_state_of v = Playing
      then v\<lparr>elapsed_time := elapsed_time v + tick_delta\<rparr>
      else v)"

section \<open>The rendezvous barrier (class Barrier, kernel/barrier.h lines 9-30)\<close>

subsection \<open>State\<close>

text \<open>
  \<^verbatim>\<open>Atomic<int32_t> count; Semaphore sem; Atomic<uint32_t> ref_count;\<close>

  \<open>count\<close> holds the 32 bits of the counter; the code reads them as an \<^verbatim>\<open>int32_t\<close>,
  which is \<open>sint\<close> here. \<open>sem\<close> is the number of tokens the semaphore holds.
\<close>

record barrier =
  count :: u32
  sem :: nat
  ref_count :: u32

text \<open>
  \<^verbatim>\<open>Barrier(uint32_t count) : count(count), sem(0), ref_count(0) {}\<close>

  The constructor has no check: the \<^verbatim>\<open>uint32_t\<close> argument initialises the
  \<^verbatim>\<open>int32_t\<close> counter, which keeps its 32 bits.
\<close>

definition Barrier :: "u32 \<Rightarrow> barrier" where
  "Barrier n = \<lparr>count = n, sem = 0, ref_count = 0\<rparr>"

text \<open>
  Modelled from the spec: \<^verbatim>\<open>Atomic<T>::add_fetch\<close> (atomic.h is not among the
  sources). "The countdown is atomically decremented on each call": one indivisible
  step adds \<open>d\<close> to the counter, in 32-bit arithmetic, and returns the new value.
\<close>

definition add_fetch :: "barrier \<Rightarrow> u32 \<Rightarrow> u32 \<times> barrier" where
  "add_fetch b d = (count b + d, b\<lparr>count := count b + d\<rparr>)"

text \<open>
  Modelled from the spec: \<^verbatim>\<open>Semaphore::up\<close> and \<^verbatim>\<open>Semaphore::down\<close> (semaphore.h is
  not among the sources). \<open>up\<close> "posts one token"; \<open>down\<close> "consumes one semaphore
  token (suspends until available)": with no token the caller cannot take the step,
  which is \<open>None\<close>.
\<close>

definition sem_up :: "barrier \<Rightarrow> barrier" where
  "sem_up b = b\<lparr>sem := sem b + 1\<rparr>"

definition sem_down :: "barrier \<Rightarrow> barrier option" where
  "sem_down b = (if sem b = 0 then None else Some (b\<lparr>sem := sem b - 1\<rparr>))"

subsection \<open>One call of sync(), statement by statement\<close>

text \<open>
  \<^verbatim>\<open>
  19  void sync() {
  20      int x = count.add_fetch(-1);
  21      if (x < 0) Debug::panic("count went negative in barrier");
  22      if (x == 0) {
  23          sem.up();
  24      } else {
  25          sem.down();
  26          sem.up();
  27      }
  28  }
  \<close>
  A call is at one of these program points, named after the source line it is about
  to execute; \<open>L21\<close> carries the local \<open>x\<close>. \<open>Returned\<close> is the end of the body.

  Modelled from the spec: \<^verbatim>\<open>Debug::panic\<close> (debug.h is not among the sources) is the
  "fatal-error sink": a "kernel panic", "never recovered". A call that reaches it is
  \<open>Panicked\<close> for good, and the kernel with it (see \<open>halted\<close> below).
\<close>

datatype point = L20 | L21 u32 | L23 | L25 | L26 | Returned | Panicked

text \<open>
  What a call has done so far to the shared objects, in order. The log is a history
  variable: no step reads it.
\<close>

datatype event = AddFetch u32 | Up | Down | Panic

record thread =
  pc :: point
  log :: "event list"

definition sync_step :: "barrier \<Rightarrow> thread \<Rightarrow> (barrier \<times> thread) option" where
  "sync_step b t =
     (case pc t of
        L20 \<Rightarrow>
          (let (x, b') = add_fetch b (- 1)
           in Some (b', \<lparr>pc = L21 x, log = log t @ [AddFetch x]\<rparr>))
      | L21 x \<Rightarrow>
          (if sint x < 0 then Some (b, \<lparr>pc = Panicked, log = log t @ [Panic]\<rparr>)
           else if sint x = 0 then Some (b, t\<lparr>pc := L23\<rparr>)
           else Some (b, t\<lparr>pc := L25\<rparr>))
      | L23 \<Rightarrow> Some (sem_up b, \<lparr>pc = Returned, log = log t @ [Up]\<rparr>)
      | L25 \<Rightarrow>
          (case sem_down b of
             None \<Rightarrow> None
           | Some b' \<Rightarrow> Some (b', \<lparr>pc = L26, log = log t @ [Down]\<rparr>))
      | L26 \<Rightarrow> Some (sem_up b, \<lparr>pc = Returned, log = log t @ [Up]\<rparr>)
      | Returned \<Rightarrow> None
      | Panicked \<Rightarrow> None)"

subsection \<open>Concurrent callers\<close>

text \<open>
  The barrier is shared by the calls of \<^verbatim>\<open>sync()\<close> that the execution contexts make:
  \<open>thr s ! i\<close> is call \<open>i\<close>, and its caller. A call that has not started yet is at
  line 20 like one that has started and not moved. The atomic operations of the
  callers interleave in any order. Once a caller has panicked the kernel is down and
  nobody moves.
\<close>

record sys =
  bar :: barrier
  thr :: "thread list"

definition start :: "u32 \<Rightarrow> nat \<Rightarrow> sys" where
  "start N n = \<lparr>bar = Barrier N, thr = replicate n \<lparr>pc = L20, log = []\<rparr>\<rparr>"

definition halted :: "sys \<Rightarrow> bool" where
  "halted s = (Panicked \<in> set (map pc (thr s)))"

definition step :: "nat \<Rightarrow> sys \<Rightarrow> sys option" where
  "step i s =
     (if i < length (thr s) \<and> \<not> halted s
      then (case sync_step (bar s) (thr s ! i) of
              None \<Rightarrow> None
            | Some (b', t') \<Rightarrow> Some \<lparr>bar = b', thr = (thr s)[i := t']\<rparr>)
      else None)"

text \<open>
  A schedule names the caller that moves next. A caller that cannot move when it is
  named (it waits in \<^verbatim>\<open>sem.down()\<close>, it has returned, the kernel is down, or there is
  no such caller) stays where it is.
\<close>

fun run :: "nat list \<Rightarrow> sys \<Rightarrow> sys" where
  "run [] s = s"
| "run (i # sched) s = (case step i s of None \<Rightarrow> run sched s | Some s' \<Rightarrow> run sched s')"

subsection \<open>What is observed of a state\<close>

text \<open>
  \<open>tally f s\<close> adds \<open>f\<close> over the callers. The functions below are 0 or 1 on a
  caller, so their tallies count callers: those that have done the decrement of line
  20, those between \<^verbatim>\<open>sem.down()\<close> and \<^verbatim>\<open>sem.up()\<close> (they hold the token they took),
  those that are past \<^verbatim>\<open>sem.down()\<close>, and those whose decrement gave 0. \<open>ups\<close> and
  \<open>downs\<close> count the semaphore operations a caller has completed.
\<close>

definition tally :: "(thread \<Rightarrow> nat) \<Rightarrow> sys \<Rightarrow> nat" where
  "tally f s = sum_list (map f (thr s))"

definition arrived :: "thread \<Rightarrow> nat" where
  "arrived t = (if pc t = L20 then 0 else 1)"

definition holds_token :: "thread \<Rightarrow> nat" where
  "holds_token t = (if pc t = L26 then 1 else 0)"

definition released :: "thread \<Rightarrow> nat" where
  "released t = (if pc t = L26 \<or> pc t = Returned then 1 else 0)"

definition ups :: "thread \<Rightarrow> nat" where
  "ups t = count_list (log t) Up"

definition downs :: "thread \<Rightarrow> nat" where
  "downs t = count_list (log t) Down"

definition got_zero :: "thread \<Rightarrow> nat" where
  "got_zero t = (case log t of AddFetch x # _ \<Rightarrow> if x = 0 then 1 else 0 | _ \<Rightarrow> 0)"

text \<open>
  Where a caller is against what it has done so far: the shape of the log at each
  program point.
\<close>

definition thread_ok :: "thread \<Rightarrow> bool" where
  "thread_ok t =
     (case pc t of
        L20 \<Rightarrow> log t = []
      | L21 x \<Rightarrow> log t = [AddFetch x]
      | L23 \<Rightarrow> log t = [AddFetch 0]
      | L25 \<Rightarrow> (\<exists>x. 0 < sint x \<and> log t = [AddFetch x])
      | L26 \<Rightarrow> (\<exists>x. 0 < sint x \<and> log t = [AddFetch x, Down])
      | Returned \<Rightarrow> log t = [AddFetch 0, Up] \<or> (\<exists>x. 0 < sint x \<and> log t = [AddFetch x, Down, Up])
      | Panicked \<Rightarrow> (\<exists>x. sint x < 0 \<and> log t = [AddFetch x, Panic]))"

text \<open>
  The invariant of the relay, for a barrier of \<open>N\<close> parties with at most \<open>N\<close>
  callers: at most one decrement gave 0, it was the \<open>N\<close>-th, and no token was posted
  and no caller went past \<^verbatim>\<open>sem.down()\<close> before it.
\<close>

definition relay_inv :: "u32 \<Rightarrow> sys \<Rightarrow> bool" where
  "relay_inv N s \<longleftrightarrow>
     length (thr s) \<le> unat N
     \<and> (\<forall>t \<in> set (thr s). thread_ok t)
     \<and> count (bar s) = N - of_nat (tally arrived s)
     \<and> tally got_zero s \<le> 1
     \<and> (1 \<le> tally got_zero s \<longrightarrow> tally arrived s = unat N)
     \<and> (0 < sem (bar s) + tally released s \<longrightarrow> 1 \<le> tally got_zero s)"

section \<open>Properties of the palette\<close>

lemma palette_length: "length palette = 192"
  by (simp add: palette_def)

lemma triples_palette_length: "length (triples palette) = 64"
  by (simp add: palette_def)

lemma palette_entries:
  "list_all (\<lambda>i. paletteRGB i =
       Some (0x55 * of_nat (i div 16), 0x55 * of_nat ((i div 4) mod 4), 0x55 * of_nat (i mod 4)))
     [0..<64]"
  by code_simp

lemma palette_distinct: "distinct (map paletteRGB [0..<64])"
  by code_simp

text \<open>
  Claim C7. The palette is an ordered sequence of exactly 64 RGB triples, 192 bytes:
  the array has 192 bytes, reading it three bytes at a time gives 64 triples that,
  laid end to end, are the array again, the indices with an entry are exactly
  \<open>0..63\<close>, and entry 0 is black, \<open>(0, 0, 0)\<close>.
\<close>

theorem palette_shape:
  "length palette = 192
   \<and> length (triples palette) = 64
   \<and> concat (map (\<lambda>(r, g, b). [r, g, b]) (triples palette)) = palette
   \<and> (\<forall>i. (paletteRGB i = None) = (64 \<le> i))
   \<and> paletteRGB 0 = Some (0, 0, 0)"
proof -
  have "concat (map (\<lambda>(r, g, b). [r, g, b]) (triples palette)) = palette"
    by (simp add: palette_def)
  moreover have "paletteRGB 0 = Some (0, 0, 0)"
    by (simp add: paletteRGB_def palette_def)
  moreover have "\<forall>i. (paletteRGB i = None) = (64 \<le> i)"
    by (auto simp: paletteRGB_def triples_palette_length)
  ultimately show ?thesis
    using palette_length triples_palette_length by simp
qed

text \<open>
  Claim C10. For every index \<open>i\<close> in \<open>0..63\<close>, palette entry \<open>i\<close> is the triple
  \<open>(0x55 * (i div 16), 0x55 * ((i div 4) mod 4), 0x55 * (i mod 4))\<close>, a 4x4x4 cube
  with red as the most significant digit, and two different indices in that range
  never hold the same triple.
\<close>

theorem palette_cube:
  assumes "i < 64" and "j < 64"
  shows "paletteRGB i =
           Some (0x55 * of_nat (i div 16), 0x55 * of_nat ((i div 4) mod 4), 0x55 * of_nat (i mod 4))
         \<and> (i \<noteq> j \<longrightarrow> paletteRGB i \<noteq> paletteRGB j)"
proof
  from assms(1) have "i \<in> set [0..<64]" by simp
  with palette_entries show "paletteRGB i =
      Some (0x55 * of_nat (i div 16), 0x55 * of_nat ((i div 4) mod 4), 0x55 * of_nat (i mod 4))"
    unfolding list_all_iff by blast
next
  have "inj_on paletteRGB (set [0..<64])"
    using palette_distinct by (simp only: distinct_map)
  with assms show "i \<noteq> j \<longrightarrow> paletteRGB i \<noteq> paletteRGB j"
    by (auto simp: inj_on_def)
qed

theorem palette_cube_witness:
  "(37::nat) < 64 \<and> (38::nat) < 64 \<and> paletteRGB 37 = Some (0xAA, 0x55, 0x55)
   \<and> paletteRGB 37 \<noteq> paletteRGB 38"
  using palette_cube [of 37 38] by auto

section \<open>Properties of the register ports\<close>

text \<open>
  Claim C8. For each of the four indexed register groups (Sequencer, Graphics
  Controller, CRT Controller colour, CRT Controller mono) the data port is the index
  port plus 1 (0x3C4/0x3C5, 0x3CE/0x3CF, 0x3D4/0x3D5, 0x3B4/0x3B5), and an indexed
  write puts the index byte on the index port first and the data byte on the data
  port after it, with nothing in between.
\<close>

theorem indexed_ports:
  "data_port grp = index_port grp + 1
   \<and> (index_port Sequencer, data_port Sequencer) = (0x3C4, 0x3C5)
   \<and> (index_port GraphicsController, data_port GraphicsController) = (0x3CE, 0x3CF)
   \<and> (index_port CrtcColor, data_port CrtcColor) = (0x3D4, 0x3D5)
   \<and> (index_port CrtcMono, data_port CrtcMono) = (0x3B4, 0x3B5)
   \<and> indexed_write grp index v bus
       = bus @ [Outb (index_port grp) index, Outb (index_port grp + 1) v]"
  by (cases grp)
     (simp_all add: indexed_write_def SEQ_INDEX_def SEQ_RW_def GRAPHICS_CTRL_INDEX_def
        GRAPHICS_CTRL_RW_def CRTC_COLOR_INDEX_def CRTC_COLOR_WRITE_def
        CRTC_MONOCHROME_INDEX_def CRTC_MONOCHROME_WRITE_def)

section \<open>Properties of the playback coordinator\<close>

text \<open>
  Claim C6. From any playback state, \<^verbatim>\<open>spotify(song, true)\<close>, \<^verbatim>\<open>playingSong(500)\<close>,
  \<^verbatim>\<open>playingSong(500)\<close> leave the elapsed-time counter at 1000 and the state Playing;
  \<^verbatim>\<open>play_pause()\<close> and \<^verbatim>\<open>playingSong(500)\<close> after that leave the counter at 1000, the
  state Paused and the loaded file the same.
\<close>

theorem playback_scenario:
  "(let v2 = playingSong 500 (playingSong 500 (spotify song True v));
        v4 = playingSong 500 (play_pause v2)
    in elapsed_time v2 = 1000 \<and> play_state_of v2 = Playing \<and> curr v2 = Some song
       \<and> elapsed_time v4 = 1000 \<and> play_state_of v4 = Paused \<and> curr v4 = Some song)"
  by (simp add: Let_def playingSong_def play_pause_def spotify_def play_state_of_def)

section \<open>Properties of the barrier\<close>

subsection \<open>Steps and invariants\<close>

lemma run_invariant:
  assumes "I s" and "\<And>i s s'. I s \<Longrightarrow> step i s = Some s' \<Longrightarrow> I s'"
  shows "I (run sched s)"
  using assms(1)
proof (induction sched arbitrary: s)
  case Nil
  then show ?case by simp
next
  case (Cons i sched)
  then show ?case by (auto split: option.splits intro: assms(2))
qed

lemma sum_list_map_update:
  "i < length xs \<Longrightarrow> sum_list (map f (xs[i := y])) + f (xs ! i) = sum_list (map f xs) + (f y :: nat)"
proof (induction xs arbitrary: i)
  case Nil
  then show ?case by simp
next
  case (Cons a xs)
  then show ?case by (cases i) auto
qed

lemma stepE:
  assumes "step i s = Some s'"
  obtains b' t' where "i < length (thr s)" and "\<not> halted s"
    and "sync_step (bar s) (thr s ! i) = Some (b', t')"
    and "s' = \<lparr>bar = b', thr = (thr s)[i := t']\<rparr>"
  using assms by (auto simp: step_def split: if_splits option.splits)

lemma tally_step:
  assumes "step i s = Some s'"
  shows "tally f s' + f (thr s ! i) = tally f s + f (thr s' ! i)"
  using assms by (elim stepE) (simp add: tally_def sum_list_map_update)

lemma sint_zero_iff: "sint (x :: u32) = 0 \<longleftrightarrow> x = 0"
  by (simp add: signed_eq_0_iff)

lemma sint_pos: "\<not> sint x < 0 \<Longrightarrow> x \<noteq> 0 \<Longrightarrow> 0 < sint (x :: u32)"
  using sint_zero_iff[of x] by linarith

lemma step_length: "step i s = Some s' \<Longrightarrow> length (thr s') = length (thr s)"
  by (elim stepE) simp

lemma step_count:
  assumes "step i s = Some s'"
  shows "count (bar s') = (if pc (thr s ! i) = L20 then count (bar s) - 1 else count (bar s))"
  using assms by (elim stepE)
    (auto simp: sync_step_def add_fetch_def sem_up_def sem_down_def
      split: point.splits if_splits option.splits)

lemma step_sem:
  assumes "step i s = Some s'"
  shows "sem (bar s') + (if pc (thr s ! i) = L25 then 1 else 0)
         = sem (bar s) + (if pc (thr s ! i) = L23 \<or> pc (thr s ! i) = L26 then 1 else 0)"
  using assms by (elim stepE)
    (auto simp: sync_step_def add_fetch_def sem_up_def sem_down_def
      split: point.splits if_splits option.splits)

lemma step_arrived:
  assumes "step i s = Some s'"
  shows "arrived (thr s' ! i) = 1"
  using assms by (elim stepE)
    (auto simp: arrived_def sync_step_def add_fetch_def
      split: point.splits if_splits option.splits)

lemma step_ups:
  assumes "step i s = Some s'"
  shows "ups (thr s' ! i)
         = ups (thr s ! i) + (if pc (thr s ! i) = L23 \<or> pc (thr s ! i) = L26 then 1 else 0)"
  using assms by (elim stepE)
    (auto simp: ups_def sync_step_def add_fetch_def
      split: point.splits if_splits option.splits)

lemma step_downs:
  assumes "step i s = Some s'"
  shows "downs (thr s' ! i) = downs (thr s ! i) + (if pc (thr s ! i) = L25 then 1 else 0)"
  using assms by (elim stepE)
    (auto simp: downs_def sync_step_def add_fetch_def
      split: point.splits if_splits option.splits)

lemma step_released:
  assumes "step i s = Some s'"
  shows "released (thr s' ! i)
         = (if pc (thr s ! i) = L20 \<or> (\<exists>x. pc (thr s ! i) = L21 x) then 0 else 1)"
  using assms by (elim stepE)
    (auto simp: released_def sync_step_def add_fetch_def
      split: point.splits if_splits option.splits)

lemma step_got_zero:
  assumes "step i s = Some s'" and "thread_ok (thr s ! i)"
  shows "got_zero (thr s' ! i)
         = (if pc (thr s ! i) = L20 then (if count (bar s) - 1 = 0 then 1 else 0)
            else got_zero (thr s ! i))"
  using assms by (elim stepE)
    (auto simp: got_zero_def thread_ok_def sync_step_def add_fetch_def
      split: point.splits if_splits option.splits)

lemma thread_ok_step:
  assumes "step i s = Some s'" and "thread_ok (thr s ! i)"
  shows "thread_ok (thr s' ! i)"
  using assms by (elim stepE)
    (auto simp: thread_ok_def sync_step_def add_fetch_def sint_zero_iff sint_pos
      split: point.splits if_splits option.splits)

lemma threads_ok_step:
  assumes "step i s = Some s'" and "\<forall>t \<in> set (thr s). thread_ok t"
  shows "\<forall>t \<in> set (thr s'). thread_ok t"
proof -
  from assms(1) obtain b' t' where i: "i < length (thr s)"
    and s': "s' = \<lparr>bar = b', thr = (thr s)[i := t']\<rparr>" by (elim stepE)
  from i assms(2) have "thread_ok (thr s ! i)" by simp
  from thread_ok_step[OF assms(1) this] i s' have "thread_ok t'" by simp
  with assms(2) s' show ?thesis
    using set_update_subset_insert[of "thr s" i t'] by auto
qed


lemma tally_start: "tally f (start N n) = n * f \<lparr>pc = L20, log = []\<rparr>"
  by (simp add: tally_def start_def sum_list_replicate)

lemma tally_member: "i < length (thr s) \<Longrightarrow> f (thr s ! i) \<le> tally f s"
  unfolding tally_def by (rule member_le_sum_list) simp_all

lemma tally_arrived_le: "tally arrived s \<le> length (thr s)"
proof -
  have "sum_list (map arrived ts) \<le> length ts" for ts
    by (induction ts) (auto simp: arrived_def)
  then show ?thesis by (simp add: tally_def)
qed

lemma tally_arrived_all:
  assumes "tally arrived s = length (thr s)" and "t \<in> set (thr s)"
  shows "pc t \<noteq> L20"
proof -
  have le: "sum_list (map arrived ts) \<le> length ts" for ts
    by (induction ts) (auto simp: arrived_def)
  have "sum_list (map arrived ts) = length ts \<Longrightarrow> t \<in> set ts \<Longrightarrow> arrived t = 1" for ts
  proof (induction ts)
    case Nil
    then show ?case by simp
  next
    case (Cons a ts)
    have a: "arrived a \<le> 1" by (simp add: arrived_def)
    from Cons.prems(1) have "arrived a + sum_list (map arrived ts) = Suc (length ts)" by simp
    with a le[of ts] have "arrived a = 1" and "sum_list (map arrived ts) = length ts" by linarith+
    with Cons.IH Cons.prems(2) show ?case by auto
  qed
  with assms have "arrived t = 1" by (simp add: tally_def)
  then show ?thesis by (simp add: arrived_def split: if_splits)
qed

lemma count_inv_step:
  assumes st: "step i s = Some s'"
    and inv: "count (bar s) = N - of_nat (tally arrived s)"
  shows "count (bar s') = N - of_nat (tally arrived s')"
proof -
  from tally_step[OF st, of arrived] step_arrived[OF st]
  have t: "tally arrived s' + arrived (thr s ! i) = tally arrived s + 1" by simp
  show ?thesis
  proof (cases "pc (thr s ! i) = L20")
    case True
    with t have "tally arrived s' = tally arrived s + 1" by (simp add: arrived_def)
    with step_count[OF st] True inv show ?thesis by simp
  next
    case False
    with t have "tally arrived s' = tally arrived s" by (simp add: arrived_def)
    with step_count[OF st] False inv show ?thesis by simp
  qed
qed

lemma sem_inv_step:
  assumes st: "step i s = Some s'"
    and inv: "sem (bar s) + tally downs s = tally ups s"
  shows "sem (bar s') + tally downs s' = tally ups s'"
  using tally_step[OF st, of ups] tally_step[OF st, of downs]
    step_ups[OF st] step_downs[OF st] step_sem[OF st] inv
  by (simp split: if_splits)

lemma of_nat_eq_unat:
  assumes "a \<le> unat (N :: u32)" and "N - of_nat a = 0"
  shows "a = unat N"
proof -
  from assms(2) have "N = of_nat a" by simp
  then have "unat N = unat (of_nat a :: u32)" by simp
  also have "\<dots> = a mod 2 ^ 32" by (simp add: unat_of_nat)
  finally have "unat N = a mod 2 ^ 32" .
  moreover have "unat N < 2 ^ 32" using unsigned_less[of N] by simp
  ultimately show ?thesis using assms(1) by (metis le_less_trans mod_less)
qed

lemma run_length: "length (thr (run sched (start N n))) = n"
  by (rule run_invariant) (simp_all add: start_def step_length)

lemma run_threads_ok: "\<forall>t \<in> set (thr (run sched (start N n))). thread_ok t"
proof (rule run_invariant)
  show "\<forall>t \<in> set (thr (start N n)). thread_ok t"
    by (simp add: start_def thread_ok_def)
qed (rule threads_ok_step)

lemma run_count:
  "count (bar (run sched (start N n))) = N - of_nat (tally arrived (run sched (start N n)))"
  by (rule run_invariant[where I = "\<lambda>s. count (bar s) = N - of_nat (tally arrived s)"])
     (simp_all add: tally_start arrived_def count_inv_step, simp add: start_def Barrier_def)

lemma run_sem:
  "sem (bar (run sched (start N n))) + tally downs (run sched (start N n))
   = tally ups (run sched (start N n))"
  by (rule run_invariant[where I = "\<lambda>s. sem (bar s) + tally downs s = tally ups s"])
     (simp_all add: tally_start ups_def downs_def sem_inv_step, simp add: start_def Barrier_def)


lemma thread_token_balance:
  assumes "thread_ok t"
  shows "ups t + holds_token t \<le> downs t + got_zero t"
  using assms
  by (cases "pc t") (auto simp: thread_ok_def ups_def downs_def holds_token_def got_zero_def)

lemma token_bound:
  assumes ok: "\<forall>t \<in> set (thr s). thread_ok t"
    and bal: "sem (bar s) + tally downs s = tally ups s"
  shows "sem (bar s) + tally holds_token s \<le> tally got_zero s"
proof -
  have "(\<Sum>t\<leftarrow>thr s. ups t + holds_token t) \<le> (\<Sum>t\<leftarrow>thr s. downs t + got_zero t)"
    by (rule sum_list_mono) (simp add: ok thread_token_balance)
  then have "tally ups s + tally holds_token s \<le> tally downs s + tally got_zero s"
    by (simp add: tally_def sum_list_addf)
  with bal show ?thesis by linarith
qed

lemma relay_inv_step:
  assumes st: "step i s = Some s'" and inv: "relay_inv N s"
  shows "relay_inv N s'"
proof -
  from inv have len: "length (thr s) \<le> unat N"
    and ok: "\<forall>t \<in> set (thr s). thread_ok t"
    and cnt: "count (bar s) = N - of_nat (tally arrived s)"
    and z1: "tally got_zero s \<le> 1"
    and zN: "1 \<le> tally got_zero s \<Longrightarrow> tally arrived s = unat N"
    and rel: "0 < sem (bar s) + tally released s \<Longrightarrow> 1 \<le> tally got_zero s"
    by (simp_all add: relay_inv_def)
  from st have i: "i < length (thr s)" by (elim stepE)
  with ok have oki: "thread_ok (thr s ! i)" by simp
  have len': "length (thr s') \<le> unat N" using len step_length[OF st] by simp
  have ok': "\<forall>t \<in> set (thr s'). thread_ok t" by (rule threads_ok_step[OF st ok])
  have cnt': "count (bar s') = N - of_nat (tally arrived s')" by (rule count_inv_step[OF st cnt])
  have arr: "tally arrived s' + arrived (thr s ! i) = tally arrived s + 1"
    using tally_step[OF st, of arrived] step_arrived[OF st] by simp
  have gz: "tally got_zero s' + got_zero (thr s ! i) = tally got_zero s + got_zero (thr s' ! i)"
    by (rule tally_step[OF st])
  have rl: "tally released s' + released (thr s ! i) = tally released s + released (thr s' ! i)"
    by (rule tally_step[OF st])
  have arr_le: "tally arrived s' \<le> unat N"
    using tally_arrived_le[of s'] len' by simp
  show ?thesis
  proof (cases "pc (thr s ! i) = L20")
    case True
    with arr have arr': "tally arrived s' = tally arrived s + 1" by (simp add: arrived_def)
    from True oki have gz_old: "got_zero (thr s ! i) = 0"
      by (simp add: thread_ok_def got_zero_def)
    from True have rl_old: "released (thr s ! i) = 0" by (simp add: released_def)
    from True step_released[OF st] have rl_new: "released (thr s' ! i) = 0" by simp
    from True step_sem[OF st] have sem': "sem (bar s') = sem (bar s)" by simp
    have z0: "tally got_zero s = 0"
    proof (rule ccontr)
      assume "tally got_zero s \<noteq> 0"
      then have "tally arrived s = unat N" using zN by simp
      with arr' arr_le show False by simp
    qed
    have gz_new: "got_zero (thr s' ! i) = (if count (bar s') = 0 then 1 else 0)"
      using step_got_zero[OF st oki] step_count[OF st] True by simp
    from gz gz_old z0 gz_new have z': "tally got_zero s' = (if count (bar s') = 0 then 1 else 0)"
      by simp
    have "tally arrived s' = unat N" if "1 \<le> tally got_zero s'"
    proof -
      from that z' have "count (bar s') = 0" by (simp split: if_splits)
      with cnt' have "N - of_nat (tally arrived s') = 0" by simp
      with arr_le show ?thesis using of_nat_eq_unat by blast
    qed
    moreover have "1 \<le> tally got_zero s'" if "0 < sem (bar s') + tally released s'"
    proof -
      from that sem' rl rl_old rl_new have "0 < sem (bar s) + tally released s" by simp
      with rel z0 show ?thesis by simp
    qed
    moreover from z' have "tally got_zero s' \<le> 1" by simp
    ultimately show ?thesis using len' ok' cnt' by (simp add: relay_inv_def)
  next
    case False
    with arr have arr': "tally arrived s' = tally arrived s" by (simp add: arrived_def)
    from False step_got_zero[OF st oki] gz have z': "tally got_zero s' = tally got_zero s"
      by simp
    have "1 \<le> tally got_zero s" if prem: "0 < sem (bar s') + tally released s'"
    proof (cases "pc (thr s ! i)")
      case L20
      with False show ?thesis by simp
    next
      case (L21 x)
      with step_sem[OF st] step_released[OF st] rl prem
      have "0 < sem (bar s) + tally released s" by (simp add: released_def)
      with rel show ?thesis .
    next
      case L23
      with oki have "got_zero (thr s ! i) = 1" by (simp add: thread_ok_def got_zero_def)
      with tally_member[OF i, of got_zero] show ?thesis by simp
    next
      case L25
      with step_sem[OF st] have "0 < sem (bar s)" by simp
      with rel show ?thesis by simp
    next
      case L26
      then have "released (thr s ! i) = 1" by (simp add: released_def)
      with tally_member[OF i, of released] rel show ?thesis by simp
    next
      case Returned
      with st show ?thesis by (elim stepE) (simp add: sync_step_def)
    next
      case Panicked
      with st show ?thesis by (elim stepE) (simp add: sync_step_def)
    qed
    with z' z1 zN arr' len' ok' cnt' show ?thesis by (simp add: relay_inv_def)
  qed
qed

lemma relay_inv_start: "n \<le> unat N \<Longrightarrow> relay_inv N (start N n)"
  unfolding relay_inv_def
  by (simp add: tally_start got_zero_def released_def arrived_def)
     (simp add: start_def Barrier_def thread_ok_def)

lemma relay_inv_run: "n \<le> unat N \<Longrightarrow> relay_inv N (run sched (start N n))"
  by (rule run_invariant[where I = "relay_inv N"]) (simp_all add: relay_inv_start relay_inv_step)


lemma halted_step: "halted s \<Longrightarrow> step i s = None"
  by (simp add: step_def)

lemma halted_run: "halted s \<Longrightarrow> run sched s = s"
  by (induction sched) (simp_all add: halted_step)

lemma late_range:
  fixes u a :: nat
  assumes "u \<le> a" and "a < u + 2 ^ 31"
  shows "- (2 ^ 31) \<le> int u - int a - 1" and "int u - int a - 1 < 2 ^ 31"
  using assms by simp_all

lemma sint_after:
  assumes "unat N \<le> a" and "a < unat N + 2 ^ 31"
  shows "sint (N - of_nat a - 1 :: u32) = int (unat N) - int a - 1"
proof -
  let ?z = "int (unat N) - int a - 1"
  have "N - of_nat a - 1 = (word_of_int ?z :: u32)" by simp
  then have "sint (N - of_nat a - 1 :: u32) = signed_take_bit 31 ?z"
    by (simp only: sint_sbintrunc') simp
  also have "\<dots> = ?z"
    by (rule signed_take_bit_int_eq_self) (rule late_range[OF assms])+
  finally show ?thesis .
qed

lemma step_enabled:
  assumes "i < length (thr s)" and "\<not> halted s"
  shows "step i s = None \<longleftrightarrow>
           pc (thr s ! i) = Returned \<or> pc (thr s ! i) = Panicked
           \<or> (pc (thr s ! i) = L25 \<and> sem (bar s) = 0)"
  using assms
  by (auto simp: step_def sync_step_def add_fetch_def sem_down_def
      split: point.splits option.splits if_splits)

subsection \<open>Single steps\<close>

lemma run_thread_ok: "i < n \<Longrightarrow> thread_ok (thr (run sched (start N n)) ! i)"
  using run_threads_ok[of sched N n] run_length[of sched N n] by simp

lemma step_L20:
  assumes "i < length (thr s)" and "\<not> halted s" and "pc (thr s ! i) = L20"
  shows "step i s = Some \<lparr>bar = (bar s)\<lparr>count := count (bar s) - 1\<rparr>,
           thr = (thr s)[i := \<lparr>pc = L21 (count (bar s) - 1),
                                log = log (thr s ! i) @ [AddFetch (count (bar s) - 1)]\<rparr>]\<rparr>"
  using assms by (simp add: step_def sync_step_def add_fetch_def)

lemma step_L21_panic:
  assumes "i < length (thr s)" and "\<not> halted s" and "pc (thr s ! i) = L21 x" and "sint x < 0"
  shows "step i s = Some \<lparr>bar = bar s,
           thr = (thr s)[i := \<lparr>pc = Panicked, log = log (thr s ! i) @ [Panic]\<rparr>]\<rparr>"
  using assms by (simp add: step_def sync_step_def)

lemma halted_update:
  "i < length (thr s) \<Longrightarrow> halted \<lparr>bar = b, thr = (thr s)[i := \<lparr>pc = Panicked, log = l\<rparr>]\<rparr>"
  unfolding halted_def
  using set_update_memI[of i "thr s" "\<lparr>pc = Panicked, log = l\<rparr>"] by force

lemma not_halted_update:
  assumes "\<not> halted s" and "pc t' \<noteq> Panicked"
  shows "\<not> halted \<lparr>bar = b, thr = (thr s)[i := t']\<rparr>"
proof -
  have "pc t \<noteq> Panicked" if "t \<in> set ((thr s)[i := t'])" for t
    using that assms set_update_subset_insert[of "thr s" i t'] unfolding halted_def by force
  then show ?thesis unfolding halted_def by force
qed

lemma step_L21_go:
  assumes "i < length (thr s)" and "\<not> halted s" and "pc (thr s ! i) = L21 x" and "\<not> sint x < 0"
  shows "step i s = Some \<lparr>bar = bar s,
           thr = (thr s)[i := (thr s ! i)\<lparr>pc := if x = 0 then L23 else L25\<rparr>]\<rparr>"
  using assms by (simp add: step_def sync_step_def sint_zero_iff)

lemma step_up:
  assumes "i < length (thr s)" and "\<not> halted s"
    and "pc (thr s ! i) = L23 \<or> pc (thr s ! i) = L26"
  shows "step i s = Some \<lparr>bar = (bar s)\<lparr>sem := sem (bar s) + 1\<rparr>,
           thr = (thr s)[i := \<lparr>pc = Returned, log = log (thr s ! i) @ [Up]\<rparr>]\<rparr>"
  using assms by (auto simp: step_def sync_step_def sem_up_def)

lemma step_down:
  assumes "i < length (thr s)" and "\<not> halted s" and "pc (thr s ! i) = L25"
    and "0 < sem (bar s)"
  shows "step i s = Some \<lparr>bar = (bar s)\<lparr>sem := sem (bar s) - 1\<rparr>,
           thr = (thr s)[i := \<lparr>pc = L26, log = log (thr s ! i) @ [Down]\<rparr>]\<rparr>"
  using assms by (simp add: step_def sync_step_def sem_down_def)

lemma step_down_blocked:
  assumes "pc (thr s ! i) = L25" and "sem (bar s) = 0"
  shows "step i s = None"
  using assms by (simp add: step_def sync_step_def sem_down_def)

lemma run_blocked:
  assumes "pc (thr s ! i) = L25" and "sem (bar s) = 0"
  shows "run (replicate k i) s = s"
  by (induction k) (simp_all add: step_down_blocked[OF assms])

lemma last_arrival_returns:
  assumes len: "i < length (thr s)" and nh: "\<not> halted s"
    and pc: "pc (thr s ! i) = L21 0" and lg: "log (thr s ! i) = [AddFetch 0]"
  shows "thr (run [i, i] s) ! i = \<lparr>pc = Returned, log = [AddFetch 0, Up]\<rparr>
       \<and> sem (bar (run [i, i] s)) = sem (bar s) + 1"
proof -
  let ?t1 = "(thr s ! i)\<lparr>pc := L23\<rparr>"
  let ?s1 = "\<lparr>bar = bar s, thr = (thr s)[i := ?t1]\<rparr>"
  have s1: "step i s = Some ?s1" using step_L21_go[OF len nh pc] by simp
  have nh1: "\<not> halted ?s1" by (rule not_halted_update[OF nh]) simp
  have len1: "i < length (thr ?s1)" using len by simp
  have pc1: "pc (thr ?s1 ! i) = L23 \<or> pc (thr ?s1 ! i) = L26" using len by simp
  from step_up[OF len1 nh1 pc1] s1 len lg show ?thesis by simp
qed

lemma waiter_returns:
  assumes len: "i < length (thr s)" and nh: "\<not> halted s"
    and pc: "pc (thr s ! i) = L21 x" and lg: "log (thr s ! i) = [AddFetch x]"
    and pos: "0 < sint x" and tok: "0 < sem (bar s)"
  shows "thr (run [i, i, i] s) ! i = \<lparr>pc = Returned, log = [AddFetch x, Down, Up]\<rparr>
       \<and> sem (bar (run [i, i, i] s)) = sem (bar s)"
proof -
  from pos have x0: "x \<noteq> 0" by auto
  let ?t1 = "(thr s ! i)\<lparr>pc := L25\<rparr>"
  let ?s1 = "\<lparr>bar = bar s, thr = (thr s)[i := ?t1]\<rparr>"
  let ?t2 = "\<lparr>pc = L26, log = [AddFetch x, Down]\<rparr>"
  let ?s2 = "\<lparr>bar = (bar s)\<lparr>sem := sem (bar s) - 1\<rparr>, thr = (thr ?s1)[i := ?t2]\<rparr>"
  have s1: "step i s = Some ?s1" using step_L21_go[OF len nh pc] pos x0 by simp
  have nh1: "\<not> halted ?s1" by (rule not_halted_update[OF nh]) simp
  have len1: "i < length (thr ?s1)" using len by simp
  have s2: "step i ?s1 = Some ?s2" using step_down[OF len1 nh1] len lg tok by simp
  have nh2: "\<not> halted ?s2" by (rule not_halted_update[OF nh1]) simp
  have len2: "i < length (thr ?s2)" using len by simp
  have pc2: "pc (thr ?s2 ! i) = L23 \<or> pc (thr ?s2 ! i) = L26" using len by simp
  from step_up[OF len2 nh2 pc2] s1 s2 len tok show ?thesis by simp
qed

lemma waiter_blocks:
  assumes len: "i < length (thr s)" and nh: "\<not> halted s"
    and pc: "pc (thr s ! i) = L21 x" and pos: "0 < sint x" and tok: "sem (bar s) = 0"
  shows "pc (thr (run (i # replicate k i) s) ! i) = L25"
proof -
  from pos have x0: "x \<noteq> 0" by auto
  let ?s1 = "\<lparr>bar = bar s, thr = (thr s)[i := (thr s ! i)\<lparr>pc := L25\<rparr>]\<rparr>"
  have s1: "step i s = Some ?s1" using step_L21_go[OF len nh pc] pos x0 by simp
  have "pc (thr ?s1 ! i) = L25" and "sem (bar ?s1) = 0" using len tok by simp_all
  from run_blocked[OF this] s1 len show ?thesis by simp
qed

lemma waiter_relay:
  assumes len: "i < length (thr s)" and nh: "\<not> halted s"
    and pc: "pc (thr s ! i) = L21 x" and lg: "log (thr s ! i) = [AddFetch x]"
    and pos: "0 < sint x" and tok: "0 < sem (bar s)"
  shows "thr (run [i, i] s) ! i = \<lparr>pc = L26, log = [AddFetch x, Down]\<rparr>
       \<and> bar (run [i, i] s) = (bar s)\<lparr>sem := sem (bar s) - 1\<rparr>
       \<and> bar (run [i, i, i] s) = bar s"
proof -
  from pos have x0: "x \<noteq> 0" by auto
  let ?t1 = "(thr s ! i)\<lparr>pc := L25\<rparr>"
  let ?s1 = "\<lparr>bar = bar s, thr = (thr s)[i := ?t1]\<rparr>"
  let ?t2 = "\<lparr>pc = L26, log = [AddFetch x, Down]\<rparr>"
  let ?s2 = "\<lparr>bar = (bar s)\<lparr>sem := sem (bar s) - 1\<rparr>, thr = (thr ?s1)[i := ?t2]\<rparr>"
  have s1: "step i s = Some ?s1" using step_L21_go[OF len nh pc] pos x0 by simp
  have nh1: "\<not> halted ?s1" by (rule not_halted_update[OF nh]) simp
  have len1: "i < length (thr ?s1)" using len by simp
  have s2: "step i ?s1 = Some ?s2" using step_down[OF len1 nh1] len lg tok by simp
  have nh2: "\<not> halted ?s2" by (rule not_halted_update[OF nh1]) simp
  have len2: "i < length (thr ?s2)" using len by simp
  have pc2: "pc (thr ?s2 ! i) = L23 \<or> pc (thr ?s2 ! i) = L26" using len by simp
  from step_up[OF len2 nh2 pc2] s1 s2 len tok show ?thesis by simp
qed

subsection \<open>The claims about sync()\<close>

text \<open>
  Claim C1. For a barrier constructed with party count \<open>N\<close> and any number of callers,
  in every state \<open>s\<close> that any interleaving reaches, and for every caller \<open>i\<close>:
  \<^item> each caller past line 20 has decremented the countdown exactly once: the counter
    is \<open>N\<close> minus the number of such callers, a caller's log holds one decrement, at
    its head, and the step at line 20 takes 1 from the counter and touches nothing
    else;
  \<^item> the semaphore holds one token per completed \<^verbatim>\<open>up\<close> less one per completed
    \<^verbatim>\<open>down\<close>;
  \<^item> a caller whose decrement gave 0 returns in its next two steps, whatever the
    semaphore holds, having posted one token and waited for none;
  \<^item> a caller whose decrement gave a positive value returns in its next three steps
    when the semaphore has a token, having taken one and posted one, in that order
    (the semaphore ends as it was); with no token it stays in \<^verbatim>\<open>sem.down()\<close> however
    often it is scheduled, and a caller in \<^verbatim>\<open>sem.down()\<close> is stuck exactly as long as
    the semaphore is empty;
  \<^item> a caller that has returned did one of these two things and nothing else, and
    does nothing more;
  \<^item> step by step, on the barrier itself: the test of lines 21 and 22 leaves the
    barrier as it is and goes to the panic, to line 23 or to line 25 by the sign of
    the decremented value; \<^verbatim>\<open>sem.up()\<close> at line 23 makes the semaphore one token
    larger and returns; \<^verbatim>\<open>sem.down()\<close> at line 25, with a token there, makes the
    semaphore one token smaller and leaves the caller at line 26, and with none
    changes nothing; \<^verbatim>\<open>sem.up()\<close> at line 26 makes the semaphore one token larger and
    returns; so a waiter that finds a token has the semaphore at one less after two
    steps and back as it was after three. None of these steps changes the counter.
\<close>

theorem sync_protocol:
  assumes "i < n" and "s = run sched (start N n)" and "t = thr s ! i"
  shows "count (bar s) = N - of_nat (tally arrived s)
     \<and> sem (bar s) + tally downs s = tally ups s
     \<and> ((pc t = L20 \<and> log t = [])
         \<or> (\<exists>x rest. log t = AddFetch x # rest \<and> set rest \<subseteq> {Up, Down, Panic}))
     \<and> (pc t = L20 \<and> \<not> halted s \<longrightarrow>
           thr (run [i] s) ! i
             = \<lparr>pc = L21 (count (bar s) - 1), log = [AddFetch (count (bar s) - 1)]\<rparr>
           \<and> bar (run [i] s) = (bar s)\<lparr>count := count (bar s) - 1\<rparr>)
     \<and> (pc t = L21 0 \<and> \<not> halted s \<longrightarrow>
           thr (run [i, i] s) ! i = \<lparr>pc = Returned, log = [AddFetch 0, Up]\<rparr>
           \<and> sem (bar (run [i, i] s)) = sem (bar s) + 1)
     \<and> (\<forall>x. pc t = L21 x \<and> 0 < sint x \<and> \<not> halted s \<and> 0 < sem (bar s) \<longrightarrow>
           thr (run [i, i, i] s) ! i = \<lparr>pc = Returned, log = [AddFetch x, Down, Up]\<rparr>
           \<and> sem (bar (run [i, i, i] s)) = sem (bar s))
     \<and> (\<forall>x k. pc t = L21 x \<and> 0 < sint x \<and> \<not> halted s \<and> sem (bar s) = 0 \<longrightarrow>
           pc (thr (run (i # replicate k i) s) ! i) = L25)
     \<and> (pc t = L25 \<longrightarrow>
           (\<exists>x. 0 < sint x \<and> log t = [AddFetch x])
           \<and> (step i s = None) = (sem (bar s) = 0 \<or> halted s))
     \<and> (pc t = Returned \<longrightarrow>
           log t = [AddFetch 0, Up] \<or> (\<exists>x. 0 < sint x \<and> log t = [AddFetch x, Down, Up]))
     \<and> (\<forall>x. pc t = L21 x \<and> \<not> halted s \<longrightarrow>
           bar (run [i] s) = bar s
           \<and> pc (thr (run [i] s) ! i)
               = (if sint x < 0 then Panicked else if x = 0 then L23 else L25))
     \<and> (pc t = L23 \<and> \<not> halted s \<longrightarrow>
           thr (run [i] s) ! i = \<lparr>pc = Returned, log = [AddFetch 0, Up]\<rparr>
           \<and> bar (run [i] s) = (bar s)\<lparr>sem := sem (bar s) + 1\<rparr>)
     \<and> (pc t = L25 \<and> \<not> halted s \<and> 0 < sem (bar s) \<longrightarrow>
           thr (run [i] s) ! i = \<lparr>pc = L26, log = log t @ [Down]\<rparr>
           \<and> bar (run [i] s) = (bar s)\<lparr>sem := sem (bar s) - 1\<rparr>
           \<and> sem (bar (run [i] s)) < sem (bar s))
     \<and> (\<forall>k. pc t = L25 \<and> sem (bar s) = 0 \<longrightarrow> run (replicate k i) s = s)
     \<and> (pc t = L26 \<and> \<not> halted s \<longrightarrow>
           thr (run [i] s) ! i = \<lparr>pc = Returned, log = log t @ [Up]\<rparr>
           \<and> bar (run [i] s) = (bar s)\<lparr>sem := sem (bar s) + 1\<rparr>)
     \<and> (\<forall>x. pc t = L21 x \<and> 0 < sint x \<and> \<not> halted s \<and> 0 < sem (bar s) \<longrightarrow>
           thr (run [i, i] s) ! i = \<lparr>pc = L26, log = [AddFetch x, Down]\<rparr>
           \<and> bar (run [i, i] s) = (bar s)\<lparr>sem := sem (bar s) - 1\<rparr>
           \<and> bar (run [i, i, i] s) = bar s)
     \<and> (\<forall>k. pc t = Returned \<longrightarrow> run (replicate k i) s = s)"
proof -
  have len: "i < length (thr s)" using assms(1,2) run_length by simp
  have ok: "thread_ok t" using assms run_thread_ok by simp
  have c1: "count (bar s) = N - of_nat (tally arrived s)"
    using assms(2) run_count by simp
  have c2: "sem (bar s) + tally downs s = tally ups s"
    using assms(2) run_sem by simp
  have c3: "(pc t = L20 \<and> log t = [])
         \<or> (\<exists>x rest. log t = AddFetch x # rest \<and> set rest \<subseteq> {Up, Down, Panic})"
    using ok by (cases "pc t") (auto simp: thread_ok_def)
  have c4: "thr (run [i] s) ! i
             = \<lparr>pc = L21 (count (bar s) - 1), log = [AddFetch (count (bar s) - 1)]\<rparr>
           \<and> bar (run [i] s) = (bar s)\<lparr>count := count (bar s) - 1\<rparr>"
    if "pc t = L20" and "\<not> halted s"
  proof -
    from ok that(1) have "log t = []" by (simp add: thread_ok_def)
    with step_L20[OF len that(2)] that(1) assms(3) len show ?thesis by simp
  qed
  have c5: "thr (run [i, i] s) ! i = \<lparr>pc = Returned, log = [AddFetch 0, Up]\<rparr>
           \<and> sem (bar (run [i, i] s)) = sem (bar s) + 1"
    if "pc t = L21 0" and "\<not> halted s"
  proof -
    from ok that(1) have "log t = [AddFetch 0]" by (simp add: thread_ok_def)
    with last_arrival_returns[OF len that(2)] that(1) assms(3) show ?thesis by simp
  qed
  have c6: "thr (run [i, i, i] s) ! i = \<lparr>pc = Returned, log = [AddFetch x, Down, Up]\<rparr>
           \<and> sem (bar (run [i, i, i] s)) = sem (bar s)"
    if "pc t = L21 x" and "0 < sint x" and "\<not> halted s" and "0 < sem (bar s)" for x
  proof -
    from ok that(1) have "log t = [AddFetch x]" by (simp add: thread_ok_def)
    with waiter_returns[OF len that(3) _ _ that(2) that(4)] that(1) assms(3)
    show ?thesis by simp
  qed
  have c7: "pc (thr (run (i # replicate k i) s) ! i) = L25"
    if "pc t = L21 x" and "0 < sint x" and "\<not> halted s" and "sem (bar s) = 0" for x k
    using waiter_blocks[OF len that(3) _ that(2) that(4)] that(1) assms(3) by simp
  have c8: "(\<exists>x. 0 < sint x \<and> log t = [AddFetch x])
           \<and> (step i s = None) = (sem (bar s) = 0 \<or> halted s)"
    if "pc t = L25"
  proof (cases "halted s")
    case True
    with ok that show ?thesis by (simp add: thread_ok_def halted_step)
  next
    case False
    with ok that step_enabled[OF len False] assms(3) show ?thesis
      by (simp add: thread_ok_def)
  qed
  have c9: "log t = [AddFetch 0, Up] \<or> (\<exists>x. 0 < sint x \<and> log t = [AddFetch x, Down, Up])"
    if "pc t = Returned"
    using ok that by (simp add: thread_ok_def)
  have c10: "bar (run [i] s) = bar s
           \<and> pc (thr (run [i] s) ! i)
               = (if sint x < 0 then Panicked else if x = 0 then L23 else L25)"
    if "pc t = L21 x" and "\<not> halted s" for x
  proof (cases "sint x < 0")
    case True
    with step_L21_panic[OF len that(2), of x] that(1) assms(3) len show ?thesis by simp
  next
    case False
    with step_L21_go[OF len that(2), of x] that(1) assms(3) len show ?thesis by simp
  qed
  have c11: "thr (run [i] s) ! i = \<lparr>pc = Returned, log = [AddFetch 0, Up]\<rparr>
           \<and> bar (run [i] s) = (bar s)\<lparr>sem := sem (bar s) + 1\<rparr>"
    if "pc t = L23" and "\<not> halted s"
  proof -
    from ok that(1) have "log t = [AddFetch 0]" by (simp add: thread_ok_def)
    with step_up[OF len that(2)] that(1) assms(3) len show ?thesis by simp
  qed
  have c12: "thr (run [i] s) ! i = \<lparr>pc = L26, log = log t @ [Down]\<rparr>
           \<and> bar (run [i] s) = (bar s)\<lparr>sem := sem (bar s) - 1\<rparr>
           \<and> sem (bar (run [i] s)) < sem (bar s)"
    if "pc t = L25" and "\<not> halted s" and "0 < sem (bar s)"
    using step_down[OF len that(2) _ that(3)] that(1,3) assms(3) len by simp
  have c13: "run (replicate k i) s = s" if "pc t = L25" and "sem (bar s) = 0" for k
    using run_blocked[OF _ that(2), of i k] that(1) assms(3) by simp
  have c14: "thr (run [i] s) ! i = \<lparr>pc = Returned, log = log t @ [Up]\<rparr>
           \<and> bar (run [i] s) = (bar s)\<lparr>sem := sem (bar s) + 1\<rparr>"
    if "pc t = L26" and "\<not> halted s"
    using step_up[OF len that(2)] that(1) assms(3) len by simp
  have c15: "thr (run [i, i] s) ! i = \<lparr>pc = L26, log = [AddFetch x, Down]\<rparr>
           \<and> bar (run [i, i] s) = (bar s)\<lparr>sem := sem (bar s) - 1\<rparr>
           \<and> bar (run [i, i, i] s) = bar s"
    if "pc t = L21 x" and "0 < sint x" and "\<not> halted s" and "0 < sem (bar s)" for x
  proof -
    from ok that(1) have "log t = [AddFetch x]" by (simp add: thread_ok_def)
    with waiter_relay[OF len that(3) _ _ that(2) that(4)] that(1) assms(3)
    show ?thesis by simp
  qed
  have c16: "run (replicate k i) s = s" if "pc t = Returned" for k
  proof -
    from that assms(3) have "step i s = None" by (simp add: step_def sync_step_def)
    then show ?thesis by (induction k) simp_all
  qed
  from c1 c2 c3 c4 c5 c6 c7 c8 c9 have old: "count (bar s) = N - of_nat (tally arrived s)
     \<and> sem (bar s) + tally downs s = tally ups s
     \<and> ((pc t = L20 \<and> log t = [])
         \<or> (\<exists>x rest. log t = AddFetch x # rest \<and> set rest \<subseteq> {Up, Down, Panic}))
     \<and> (pc t = L20 \<and> \<not> halted s \<longrightarrow>
           thr (run [i] s) ! i
             = \<lparr>pc = L21 (count (bar s) - 1), log = [AddFetch (count (bar s) - 1)]\<rparr>
           \<and> bar (run [i] s) = (bar s)\<lparr>count := count (bar s) - 1\<rparr>)
     \<and> (pc t = L21 0 \<and> \<not> halted s \<longrightarrow>
           thr (run [i, i] s) ! i = \<lparr>pc = Returned, log = [AddFetch 0, Up]\<rparr>
           \<and> sem (bar (run [i, i] s)) = sem (bar s) + 1)
     \<and> (\<forall>x. pc t = L21 x \<and> 0 < sint x \<and> \<not> halted s \<and> 0 < sem (bar s) \<longrightarrow>
           thr (run [i, i, i] s) ! i = \<lparr>pc = Returned, log = [AddFetch x, Down, Up]\<rparr>
           \<and> sem (bar (run [i, i, i] s)) = sem (bar s))
     \<and> (\<forall>x k. pc t = L21 x \<and> 0 < sint x \<and> \<not> halted s \<and> sem (bar s) = 0 \<longrightarrow>
           pc (thr (run (i # replicate k i) s) ! i) = L25)
     \<and> (pc t = L25 \<longrightarrow>
           (\<exists>x. 0 < sint x \<and> log t = [AddFetch x])
           \<and> (step i s = None) = (sem (bar s) = 0 \<or> halted s))
     \<and> (pc t = Returned \<longrightarrow>
           log t = [AddFetch 0, Up] \<or> (\<exists>x. 0 < sint x \<and> log t = [AddFetch x, Down, Up]))"
    by blast
  from c10 c11 c12 c13 c14 c15 c16
  have new: "(\<forall>x. pc t = L21 x \<and> \<not> halted s \<longrightarrow>
           bar (run [i] s) = bar s
           \<and> pc (thr (run [i] s) ! i)
               = (if sint x < 0 then Panicked else if x = 0 then L23 else L25))
     \<and> (pc t = L23 \<and> \<not> halted s \<longrightarrow>
           thr (run [i] s) ! i = \<lparr>pc = Returned, log = [AddFetch 0, Up]\<rparr>
           \<and> bar (run [i] s) = (bar s)\<lparr>sem := sem (bar s) + 1\<rparr>)
     \<and> (pc t = L25 \<and> \<not> halted s \<and> 0 < sem (bar s) \<longrightarrow>
           thr (run [i] s) ! i = \<lparr>pc = L26, log = log t @ [Down]\<rparr>
           \<and> bar (run [i] s) = (bar s)\<lparr>sem := sem (bar s) - 1\<rparr>
           \<and> sem (bar (run [i] s)) < sem (bar s))
     \<and> (\<forall>k. pc t = L25 \<and> sem (bar s) = 0 \<longrightarrow> run (replicate k i) s = s)
     \<and> (pc t = L26 \<and> \<not> halted s \<longrightarrow>
           thr (run [i] s) ! i = \<lparr>pc = Returned, log = log t @ [Up]\<rparr>
           \<and> bar (run [i] s) = (bar s)\<lparr>sem := sem (bar s) + 1\<rparr>)
     \<and> (\<forall>x. pc t = L21 x \<and> 0 < sint x \<and> \<not> halted s \<and> 0 < sem (bar s) \<longrightarrow>
           thr (run [i, i] s) ! i = \<lparr>pc = L26, log = [AddFetch x, Down]\<rparr>
           \<and> bar (run [i, i] s) = (bar s)\<lparr>sem := sem (bar s) - 1\<rparr>
           \<and> bar (run [i, i, i] s) = bar s)
     \<and> (\<forall>k. pc t = Returned \<longrightarrow> run (replicate k i) s = s)"
    by blast
  from old new show ?thesis by (intro conjI) (elim conjE, assumption)+
qed


theorem sync_protocol_witness:
  "(0::nat) < 3 \<and> (2::nat) < 3
   \<and> count (bar (run [0, 0, 1, 1, 2] (start 3 3))) = 0
   \<and> pc (thr (run [0, 0, 1, 1, 2] (start 3 3)) ! 2) = L21 0
   \<and> thr (run [2, 2] (run [0, 0, 1, 1, 2] (start 3 3))) ! 2
       = \<lparr>pc = Returned, log = [AddFetch 0, Up]\<rparr>
   \<and> sem (bar (run [2, 2] (run [0, 0, 1, 1, 2] (start 3 3)))) = 1
   \<and> pc (thr (run [0] (start 3 3)) ! 0) = L21 2
   \<and> pc (thr (run (0 # replicate 5 0) (run [0] (start 3 3))) ! 0) = L25
   \<and> step 0 (run [0, 0] (start 3 3)) = None
   \<and> pc (thr (run [0, 1, 1, 2, 2, 2] (start 3 3)) ! 0) = L21 2
   \<and> thr (run [0, 0, 0] (run [0, 1, 1, 2, 2, 2] (start 3 3))) ! 0
       = \<lparr>pc = Returned, log = [AddFetch 2, Down, Up]\<rparr>
   \<and> sem (bar (run [0, 0, 0] (run [0, 1, 1, 2, 2, 2] (start 3 3)))) = 1
   \<and> thr (run [1] (run [0] (start 3 3))) ! 1 = \<lparr>pc = L21 1, log = [AddFetch 1]\<rparr>
   \<and> pc (thr (run [0, 0, 1, 1, 2, 2, 2] (start 3 3)) ! 0) = L25
   \<and> sem (bar (run [0, 0, 1, 1, 2, 2, 2] (start 3 3))) = 1
   \<and> thr (run [0] (run [0, 0, 1, 1, 2, 2, 2] (start 3 3))) ! 0
       = \<lparr>pc = L26, log = [AddFetch 2, Down]\<rparr>
   \<and> sem (bar (run [0] (run [0, 0, 1, 1, 2, 2, 2] (start 3 3)))) = 0
   \<and> sem (bar (run [0, 0, 1, 1, 2, 2, 2, 0] (start 3 3))) = 0
   \<and> thr (run [0] (run [0, 0, 1, 1, 2, 2, 2, 0] (start 3 3))) ! 0
       = \<lparr>pc = Returned, log = [AddFetch 2, Down, Up]\<rparr>
   \<and> sem (bar (run [0] (run [0, 0, 1, 1, 2, 2, 2, 0] (start 3 3)))) = 1
   \<and> thr (run [0, 0] (run [0, 1, 1, 2, 2, 2] (start 3 3))) ! 0
       = \<lparr>pc = L26, log = [AddFetch 2, Down]\<rparr>
   \<and> sem (bar (run [0, 0] (run [0, 1, 1, 2, 2, 2] (start 3 3)))) = 0
   \<and> pc (thr (run [0, 0, 1, 1, 2, 2] (start 3 3)) ! 2) = L23
   \<and> sem (bar (run [2] (run [0, 0, 1, 1, 2, 2] (start 3 3)))) = 1
   \<and> run (replicate 4 0) (run [0, 0] (start 3 3)) = run [0, 0] (start 3 3)"
proof -
  let ?z = "run [0, 0, 1, 1, 2] (start 3 3)"
  let ?a = "run [0] (start 3 3)"
  let ?w = "run [0, 0] (start 3 3)"
  let ?p = "run [0, 1, 1, 2, 2, 2] (start 3 3)"
  have l0: "(0::nat) < 3" and l1: "(1::nat) < 3" and l2: "(2::nat) < 3" by simp_all
  have pos: "0 < sint (2 :: u32)" by simp
  have z0: "pc (thr ?z ! 2) = L21 0" by code_simp
  have z1: "\<not> halted ?z" by code_simp
  have z2: "tally arrived ?z = 3" by code_simp
  have a0: "pc (thr ?a ! 0) = L21 2" by code_simp
  have a1: "\<not> halted ?a" by code_simp
  have a2: "sem (bar ?a) = 0" by code_simp
  have a3: "pc (thr ?a ! 1) = L20" by code_simp
  have a4: "count (bar ?a) = 2" by code_simp
  have w0: "pc (thr ?w ! 0) = L25" by code_simp
  have w1: "sem (bar ?w) = 0" by code_simp
  have p0: "pc (thr ?p ! 0) = L21 2" by code_simp
  have p1: "\<not> halted ?p" by code_simp
  have p2: "sem (bar ?p) = 1" by code_simp
  note Z = sync_protocol[OF l2 refl refl, of "[0, 0, 1, 1, 2]" 3]
  note A = sync_protocol[OF l0 refl refl, of "[0]" 3]
  note A1 = sync_protocol[OF l1 refl refl, of "[0]" 3]
  note W = sync_protocol[OF l0 refl refl, of "[0, 0]" 3]
  note P = sync_protocol[OF l0 refl refl, of "[0, 1, 1, 2, 2, 2]" 3]
  from Z z2 have x0: "count (bar ?z) = 0" by simp
  from Z z0 z1 have x1: "thr (run [2, 2] ?z) ! 2 = \<lparr>pc = Returned, log = [AddFetch 0, Up]\<rparr>"
    and x2: "sem (bar (run [2, 2] ?z)) = sem (bar ?z) + 1" by blast+
  have z3: "sem (bar ?z) = 0" by code_simp
  from x2 z3 have x2': "sem (bar (run [2, 2] ?z)) = 1" by simp
  from A a0 a1 a2 pos have x3: "pc (thr (run (0 # replicate 5 0) ?a) ! 0) = L25" by blast
  from W w0 w1 have x4: "step 0 ?w = None" by blast
  from P p0 p1 p2 pos
  have x5: "thr (run [0, 0, 0] ?p) ! 0 = \<lparr>pc = Returned, log = [AddFetch 2, Down, Up]\<rparr>"
    and x6: "sem (bar (run [0, 0, 0] ?p)) = sem (bar ?p)" by simp_all
  from x6 p2 have x6': "sem (bar (run [0, 0, 0] ?p)) = 1" by simp
  from A1 a3 a1 a4
  have x7: "thr (run [1] ?a) ! 1 = \<lparr>pc = L21 1, log = [AddFetch 1]\<rparr>" by simp
  let ?q = "run [0, 0, 1, 1, 2, 2, 2] (start 3 3)"
  let ?r = "run [0, 0, 1, 1, 2, 2, 2, 0] (start 3 3)"
  let ?l = "run [0, 0, 1, 1, 2, 2] (start 3 3)"
  have q0: "pc (thr ?q ! 0) = L25" by code_simp
  have q1: "\<not> halted ?q" by code_simp
  have q2: "sem (bar ?q) = 1" by code_simp
  have q3: "log (thr ?q ! 0) = [AddFetch 2]" by code_simp
  have r0: "pc (thr ?r ! 0) = L26" by code_simp
  have r1: "\<not> halted ?r" by code_simp
  have r2: "sem (bar ?r) = 0" by code_simp
  have r3: "log (thr ?r ! 0) = [AddFetch 2, Down]" by code_simp
  have k0: "pc (thr ?l ! 2) = L23" by code_simp
  have k1: "\<not> halted ?l" by code_simp
  have k2: "sem (bar ?l) = 0" by code_simp
  note Q = sync_protocol[OF l0 refl refl, of "[0, 0, 1, 1, 2, 2, 2]" 3]
  note R = sync_protocol[OF l0 refl refl, of "[0, 0, 1, 1, 2, 2, 2, 0]" 3]
  note L = sync_protocol[OF l2 refl refl, of "[0, 0, 1, 1, 2, 2]" 3]
  from Q q0 q1 q2 have "thr (run [0] ?q) ! 0 = \<lparr>pc = L26, log = log (thr ?q ! 0) @ [Down]\<rparr>"
    and qb: "bar (run [0] ?q) = (bar ?q)\<lparr>sem := sem (bar ?q) - 1\<rparr>" by simp_all
  with q3 have y1: "thr (run [0] ?q) ! 0 = \<lparr>pc = L26, log = [AddFetch 2, Down]\<rparr>" by simp
  from qb q2 have y2: "sem (bar (run [0] ?q)) = 0" by simp
  from R r0 r1 have "thr (run [0] ?r) ! 0 = \<lparr>pc = Returned, log = log (thr ?r ! 0) @ [Up]\<rparr>"
    and rb: "bar (run [0] ?r) = (bar ?r)\<lparr>sem := sem (bar ?r) + 1\<rparr>" by simp_all
  with r3 have y3: "thr (run [0] ?r) ! 0 = \<lparr>pc = Returned, log = [AddFetch 2, Down, Up]\<rparr>"
    by simp
  from rb r2 have y4: "sem (bar (run [0] ?r)) = 1" by simp
  from P p0 p1 p2 pos
  have y5: "thr (run [0, 0] ?p) ! 0 = \<lparr>pc = L26, log = [AddFetch 2, Down]\<rparr>"
    and pb: "bar (run [0, 0] ?p) = (bar ?p)\<lparr>sem := sem (bar ?p) - 1\<rparr>" by simp_all
  from pb p2 have y6: "sem (bar (run [0, 0] ?p)) = 0" by simp
  from L k0 k1 have "bar (run [2] ?l) = (bar ?l)\<lparr>sem := sem (bar ?l) + 1\<rparr>" by simp
  with k2 have y7: "sem (bar (run [2] ?l)) = 1" by simp
  from W w0 w1 have y8: "run (replicate 4 0) ?w = ?w" by blast
  from l0 l2 x0 z0 x1 x2' a0 x3 x4 p0 x5 x6' x7 q0 q2 y1 y2 r2 y3 y4 y5 y6 k0 y7 y8
  show ?thesis by (intro conjI)
qed

text \<open>
  Claim C2. For a barrier constructed with party count \<open>N\<close>, in every state that any
  interleaving reaches: a caller whose decrement gave a negative value calls the panic
  sink at its next step, which takes the kernel down; it is never anywhere but at
  line 21 or in the panic, so it never returns and never touches the semaphore; once
  a caller has panicked nothing moves any more; and when \<open>N\<close> or more callers (fewer
  than \<open>N + 2^31\<close>) have already decremented the counter, the next decrement gives the
  negative value \<open>N - arrived - 1\<close>. For \<open>N = 3\<close> that is the 4th call.
\<close>

theorem negative_count_panics:
  assumes "i < n" and "s = run sched (start N n)" and "t = thr s ! i"
  shows "(\<forall>x. pc t = L21 x \<and> sint x < 0 \<and> \<not> halted s \<longrightarrow>
            (\<exists>s'. step i s = Some s'
                  \<and> thr s' ! i = \<lparr>pc = Panicked, log = [AddFetch x, Panic]\<rparr> \<and> halted s'))
     \<and> (\<forall>x. AddFetch x \<in> set (log t) \<and> sint x < 0 \<longrightarrow>
            (pc t = L21 x \<or> pc t = Panicked) \<and> Up \<notin> set (log t) \<and> Down \<notin> set (log t))
     \<and> (halted s \<longrightarrow> (\<forall>sched'. run sched' s = s))
     \<and> (pc t = L20 \<and> \<not> halted s \<and> unat N \<le> tally arrived s
          \<and> tally arrived s < unat N + 2 ^ 31 \<longrightarrow>
            (\<exists>s' x. step i s = Some s' \<and> pc (thr s' ! i) = L21 x
                   \<and> sint x = int (unat N) - int (tally arrived s) - 1 \<and> sint x < 0))"
proof -
  have len: "i < length (thr s)" using assms(1,2) run_length by simp
  have ok: "thread_ok t" using assms run_thread_ok by simp
  have a: "\<exists>s'. step i s = Some s'
              \<and> thr s' ! i = \<lparr>pc = Panicked, log = [AddFetch x, Panic]\<rparr> \<and> halted s'"
    if "pc t = L21 x" and "sint x < 0" and "\<not> halted s" for x
  proof -
    from ok that(1) have "log t = [AddFetch x]" by (simp add: thread_ok_def)
    with step_L21_panic[OF len that(3), of x] that(1,2) assms(3) len halted_update[OF len]
    show ?thesis by simp
  qed
  have b: "(pc t = L21 x \<or> pc t = Panicked) \<and> Up \<notin> set (log t) \<and> Down \<notin> set (log t)"
    if "AddFetch x \<in> set (log t)" and "sint x < 0" for x
    using ok that by (cases "pc t") (auto simp: thread_ok_def)
  have c: "\<forall>sched'. run sched' s = s" if "halted s"
    using that by (simp add: halted_run)
  have d: "\<exists>s' x. step i s = Some s' \<and> pc (thr s' ! i) = L21 x
                 \<and> sint x = int (unat N) - int (tally arrived s) - 1 \<and> sint x < 0"
    if "pc t = L20" and "\<not> halted s" and lo: "unat N \<le> tally arrived s"
      and hi: "tally arrived s < unat N + 2 ^ 31"
  proof -
    have cnt: "count (bar s) = N - of_nat (tally arrived s)"
      using assms(2) run_count by simp
    from sint_after[OF lo hi] cnt
    have x: "sint (count (bar s) - 1) = int (unat N) - int (tally arrived s) - 1" by simp
    with lo have "sint (count (bar s) - 1) < 0" by linarith
    with x step_L20[OF len that(2)] that(1) assms(3) len show ?thesis by simp
  qed
  from a b c d show ?thesis by blast
qed

theorem negative_count_panics_witness:
  "(3::nat) < 4
   \<and> (\<exists>s'. step 3 (run [0, 0, 1, 1, 2, 2, 3] (start 3 4)) = Some s'
          \<and> thr s' ! 3 = \<lparr>pc = Panicked, log = [AddFetch (- 1), Panic]\<rparr> \<and> halted s')
   \<and> pc (thr (run [0, 0, 1, 1, 2, 2, 3, 3] (start 3 4)) ! 3) = Panicked
   \<and> Up \<notin> set (log (thr (run [0, 0, 1, 1, 2, 2, 3, 3] (start 3 4)) ! 3))
   \<and> (\<forall>sched'. run sched' (run [0, 0, 1, 1, 2, 2, 3, 3] (start 3 4))
                 = run [0, 0, 1, 1, 2, 2, 3, 3] (start 3 4))
   \<and> tally arrived (run [0, 0, 1, 1, 2, 2] (start 3 4)) = 3
   \<and> (\<exists>s' x. step 3 (run [0, 0, 1, 1, 2, 2] (start 3 4)) = Some s'
            \<and> pc (thr s' ! 3) = L21 x \<and> sint x = - 1 \<and> sint x < 0)"
proof -
  let ?a = "run [0, 0, 1, 1, 2, 2] (start 3 4)"
  let ?b = "run [0, 0, 1, 1, 2, 2, 3] (start 3 4)"
  let ?c = "run [0, 0, 1, 1, 2, 2, 3, 3] (start 3 4)"
  have a1: "pc (thr ?a ! 3) = L20" by code_simp
  have a2: "\<not> halted ?a" by code_simp
  have a3: "tally arrived ?a = 3" by code_simp
  have b1: "pc (thr ?b ! 3) = L21 (- 1)" by code_simp
  have b2: "\<not> halted ?b" by code_simp
  have c1: "pc (thr ?c ! 3) = Panicked" by code_simp
  have c2: "halted ?c" by code_simp
  have c3: "AddFetch (- 1) \<in> set (log (thr ?c ! 3))" by code_simp
  have neg: "sint (- 1 :: u32) < 0" by simp
  have lt: "(3::nat) < 4" by simp
  note A = negative_count_panics[OF lt refl refl, of "[0, 0, 1, 1, 2, 2]" 3]
  note B = negative_count_panics[OF lt refl refl, of "[0, 0, 1, 1, 2, 2, 3]" 3]
  note C = negative_count_panics[OF lt refl refl, of "[0, 0, 1, 1, 2, 2, 3, 3]" 3]
  from B b1 b2 neg
  have w1: "\<exists>s'. step 3 ?b = Some s'
          \<and> thr s' ! 3 = \<lparr>pc = Panicked, log = [AddFetch (- 1), Panic]\<rparr> \<and> halted s'"
    by blast
  from C c3 neg have w2: "Up \<notin> set (log (thr ?c ! 3))" by blast
  from C c2 have w3: "\<forall>sched'. run sched' ?c = ?c" by blast
  from A a1 a2 a3
  have w4: "\<exists>s' x. step 3 ?a = Some s' \<and> pc (thr s' ! 3) = L21 x \<and> sint x = - 1 \<and> sint x < 0"
    by simp
  from lt w1 c1 w2 w3 a3 w4 show ?thesis by blast
qed

text \<open>
  Claim C3. For a barrier of \<open>N\<close> parties with \<open>N\<close> callers (or fewer), in every state
  that any interleaving reaches: the semaphore's tokens and the callers that hold a
  token they took (between \<^verbatim>\<open>sem.down()\<close> and \<^verbatim>\<open>sem.up()\<close>) are at most one in all; and
  if the semaphore has a token, or some caller is past \<^verbatim>\<open>sem.down()\<close> or has returned,
  then all \<open>N\<close> callers have done their decrement: there are exactly \<open>N\<close> callers and
  none is still at line 20.
\<close>

theorem relay_single_token:
  assumes "n \<le> unat N" and "s = run sched (start N n)"
  shows "sem (bar s) + tally holds_token s \<le> 1
     \<and> (0 < sem (bar s) \<or> (\<exists>t \<in> set (thr s). pc t = L26 \<or> pc t = Returned) \<longrightarrow>
          tally arrived s = unat N \<and> n = unat N \<and> (\<forall>t \<in> set (thr s). pc t \<noteq> L20))"
proof -
  have inv: "relay_inv N s" using assms relay_inv_run by simp
  have len: "length (thr s) = n" using assms(2) run_length by simp
  have ok: "\<forall>t \<in> set (thr s). thread_ok t" using assms(2) run_threads_ok by simp
  have bal: "sem (bar s) + tally downs s = tally ups s" using assms(2) run_sem by simp
  from inv have z1: "tally got_zero s \<le> 1"
    and zN: "1 \<le> tally got_zero s \<Longrightarrow> tally arrived s = unat N"
    and rel: "0 < sem (bar s) + tally released s \<Longrightarrow> 1 \<le> tally got_zero s"
    by (simp_all add: relay_inv_def)
  from token_bound[OF ok bal] z1
  have tok: "sem (bar s) + tally holds_token s \<le> 1" by simp
  have "tally arrived s = unat N \<and> n = unat N \<and> (\<forall>t \<in> set (thr s). pc t \<noteq> L20)"
    if prem: "0 < sem (bar s) \<or> (\<exists>t \<in> set (thr s). pc t = L26 \<or> pc t = Returned)"
  proof -
    have "0 < sem (bar s) + tally released s"
    proof (cases "0 < sem (bar s)")
      case True
      then show ?thesis by simp
    next
      case False
      with prem obtain t where "t \<in> set (thr s)" and "pc t = L26 \<or> pc t = Returned" by blast
      then obtain j where j: "j < length (thr s)" and "released (thr s ! j) = 1"
        by (auto simp: in_set_conv_nth released_def)
      with tally_member[OF j, of released] show ?thesis by simp
    qed
    with rel zN have arr: "tally arrived s = unat N" by simp
    with tally_arrived_le[of s] len assms(1) have n: "n = unat N" by simp
    with arr len have "tally arrived s = length (thr s)" by simp
    with tally_arrived_all have "\<forall>t \<in> set (thr s). pc t \<noteq> L20" by blast
    with arr n show ?thesis by simp
  qed
  with tok show ?thesis by blast
qed

theorem relay_single_token_witness:
  "(3::nat) \<le> unat (3::u32)
   \<and> pc (thr (run [0, 0, 1, 1, 2, 2, 2, 0] (start 3 3)) ! 0) = L26
   \<and> sem (bar (run [0, 0, 1, 1, 2, 2, 2, 0] (start 3 3)))
      + tally holds_token (run [0, 0, 1, 1, 2, 2, 2, 0] (start 3 3)) = 1
   \<and> tally arrived (run [0, 0, 1, 1, 2, 2, 2, 0] (start 3 3)) = unat (3::u32)
   \<and> L20 \<notin> set (map pc (thr (run [0, 0, 1, 1, 2, 2, 2, 0] (start 3 3))))
   \<and> sem (bar (run [0, 0, 1, 1, 2, 2, 0, 1] (start 3 3)))
      + tally holds_token (run [0, 0, 1, 1, 2, 2, 0, 1] (start 3 3)) \<le> 1"
proof -
  let ?r = "run [0, 0, 1, 1, 2, 2, 2, 0] (start 3 3)"
  have n: "(3::nat) \<le> unat (3::u32)" by simp
  have r0: "pc (thr ?r ! 0) = L26" by code_simp
  have r1: "\<exists>t \<in> set (thr ?r). pc t = L26 \<or> pc t = Returned" by code_simp
  have r2: "sem (bar ?r) + tally holds_token ?r = 1" by code_simp
  note R = relay_single_token[OF n refl, of "[0, 0, 1, 1, 2, 2, 2, 0]"]
  note Q = relay_single_token[OF n refl, of "[0, 0, 1, 1, 2, 2, 0, 1]"]
  from R r1 have "tally arrived ?r = unat (3::u32) \<and> (\<forall>t \<in> set (thr ?r). pc t \<noteq> L20)"
    by blast
  with n r0 r2 Q show ?thesis by auto
qed

text \<open>
  Claim C9. The constructor takes party count 0 as it takes any other: \<open>Barrier 0\<close> is
  a barrier with counter 0 and no token. On it, whichever caller moves first gets
  \<open>-1\<close> from its decrement, and its next step is the panic, which takes the kernel
  down.
\<close>

theorem zero_party_barrier:
  assumes "i < n"
  shows "Barrier 0 = \<lparr>count = 0, sem = 0, ref_count = 0\<rparr>
     \<and> thr (run [i] (start 0 n)) ! i = \<lparr>pc = L21 (- 1), log = [AddFetch (- 1)]\<rparr>
     \<and> sint (- 1 :: u32) = - 1
     \<and> thr (run [i, i] (start 0 n)) ! i = \<lparr>pc = Panicked, log = [AddFetch (- 1), Panic]\<rparr>
     \<and> halted (run [i, i] (start 0 n))"
proof -
  let ?s0 = "start 0 n"
  let ?t1 = "\<lparr>pc = L21 (- 1), log = [AddFetch (- 1)]\<rparr>"
  let ?s1 = "\<lparr>bar = (bar ?s0)\<lparr>count := - 1\<rparr>, thr = (thr ?s0)[i := ?t1]\<rparr>"
  let ?t2 = "\<lparr>pc = Panicked, log = [AddFetch (- 1), Panic]\<rparr>"
  let ?s2 = "\<lparr>bar = bar ?s1, thr = (thr ?s1)[i := ?t2]\<rparr>"
  have len0: "i < length (thr ?s0)" using assms by (simp add: start_def)
  have nh0: "\<not> halted ?s0" by (simp add: halted_def start_def)
  have pc0: "thr ?s0 ! i = \<lparr>pc = L20, log = []\<rparr>" using assms by (simp add: start_def)
  have s1: "step i ?s0 = Some ?s1"
    using step_L20[OF len0 nh0] pc0 by (simp add: start_def Barrier_def)
  have len1: "i < length (thr ?s1)" using len0 by simp
  have t1: "thr ?s1 ! i = ?t1" using len0 by simp
  have "pc t \<noteq> Panicked" if "t \<in> set (thr ?s1)" for t
    using that set_update_subset_insert[of "thr ?s0" i ?t1] by (auto simp: start_def)
  then have nh1: "\<not> halted ?s1" unfolding halted_def by force
  have s2: "step i ?s1 = Some ?s2"
    using step_L21_panic[OF len1 nh1, of "- 1"] t1 by simp
  have r1: "run [i] ?s0 = ?s1" using s1 by simp
  have r2: "run [i, i] ?s0 = ?s2" using s1 s2 by simp
  have h2: "halted ?s2" using halted_update[OF len1] by simp
  show ?thesis
    unfolding r1 r2 using t1 len1 h2 by (simp add: Barrier_def)
qed

theorem zero_party_barrier_witness:
  "(0::nat) < 1 \<and> thr (run [0, 0] (start 0 1)) ! 0 = \<lparr>pc = Panicked, log = [AddFetch (- 1), Panic]\<rparr>
   \<and> halted (run [0, 0] (start 0 1))"
  using zero_party_barrier[of 0 1] by simp

section \<open>Properties of the nearest-colour search\<close>

lemma nearest_Some:
  "best \<noteq> None \<or> cs \<noteq> [] \<Longrightarrow> nearest d cs i best \<noteq> None"
  by (induction cs arbitrary: i best) (auto split: option.splits)

lemma nearest_spec:
  assumes "nearest d cs i best = Some (k, kd)"
  shows "(best = Some (k, kd) \<and> (\<forall>x \<in> set cs. kd \<le> d x))
       \<or> (\<exists>j < length cs. k = i + j \<and> kd = d (cs ! j)
             \<and> (\<forall>x \<in> set (take j cs). kd < d x) \<and> (\<forall>x \<in> set cs. kd \<le> d x)
             \<and> (\<forall>bi bd. best = Some (bi, bd) \<longrightarrow> kd < bd))"
  using assms
proof (induction cs arbitrary: i best)
  case Nil
  then show ?case by simp
next
  case (Cons c cs)
  let ?best' = "case best of None \<Rightarrow> Some (i, d c)
                | Some (bi, bd) \<Rightarrow> if d c < bd then Some (i, d c) else Some (bi, bd)"
  from Cons.prems have run: "nearest d cs (Suc i) ?best' = Some (k, kd)" by simp
  from Cons.IH[OF run]
  consider (kept) "?best' = Some (k, kd)" and "\<forall>x \<in> set cs. kd \<le> d x"
    | (later) j where "j < length cs" and "k = Suc i + j" and "kd = d (cs ! j)"
        and "\<forall>x \<in> set (take j cs). kd < d x" and "\<forall>x \<in> set cs. kd \<le> d x"
        and "\<forall>bi bd. ?best' = Some (bi, bd) \<longrightarrow> kd < bd"
    by blast
  then show ?case
  proof cases
    case kept
    show ?thesis
    proof (cases "best = Some (k, kd)")
      case True
      with kept show ?thesis by (auto split: if_splits)
    next
      case False
      with kept(1) have here: "k = i" "kd = d c" and lt: "\<forall>bi bd. best = Some (bi, bd) \<longrightarrow> kd < bd"
        by (auto split: option.splits if_splits)
      have "0 < length (c # cs) \<and> k = i + 0 \<and> kd = d ((c # cs) ! 0)
            \<and> (\<forall>x \<in> set (take 0 (c # cs)). kd < d x) \<and> (\<forall>x \<in> set (c # cs). kd \<le> d x)
            \<and> (\<forall>bi bd. best = Some (bi, bd) \<longrightarrow> kd < bd)"
        using here lt kept(2) by simp
      then show ?thesis by blast
    qed
  next
    case later
    from later(6) have c: "kd < d c" and lt: "\<forall>bi bd. best = Some (bi, bd) \<longrightarrow> kd < bd"
      by (auto split: option.splits if_splits)
    have "Suc j < length (c # cs) \<and> k = i + Suc j \<and> kd = d ((c # cs) ! Suc j)
          \<and> (\<forall>x \<in> set (take (Suc j) (c # cs)). kd < d x) \<and> (\<forall>x \<in> set (c # cs). kd \<le> d x)
          \<and> (\<forall>bi bd. best = Some (bi, bd) \<longrightarrow> kd < bd)"
      using later(1-5) c lt by auto
    then show ?thesis by blast
  qed
qed

lemma nearest_first:
  assumes "cs \<noteq> []"
  shows "\<exists>k < length cs. nearest d cs 0 None = Some (k, d (cs ! k))
           \<and> (\<forall>j < k. d (cs ! k) < d (cs ! j)) \<and> (\<forall>j < length cs. d (cs ! k) \<le> d (cs ! j))"
proof -
  from nearest_Some[of None cs d 0] assms obtain k kd
    where r: "nearest d cs 0 None = Some (k, kd)" by auto
  from nearest_spec[OF r] obtain j where j: "j < length cs" "k = j" "kd = d (cs ! j)"
    and early: "\<forall>x \<in> set (take j cs). kd < d x" and all: "\<forall>x \<in> set cs. kd \<le> d x"
    by auto
  have "d (cs ! k) < d (cs ! j')" if "j' < k" for j'
  proof -
    from that j have "cs ! j' \<in> set (take j cs)"
      by (metis in_set_conv_nth length_take min.absorb2 nth_take less_imp_le)
    with early j show ?thesis by simp
  qed
  moreover have "d (cs ! k) \<le> d (cs ! j')" if "j' < length cs" for j'
    using all that j by simp
  ultimately show ?thesis using r j by blast
qed

lemma chan_diff_zero: "chan_diff a b = 0 \<longleftrightarrow> a = b"
  by (auto simp: chan_diff_def word_unat_eq_iff)

lemma sq_dist_zero: "(sq_dist p q = 0) = (p = q)"
  by (cases p; cases q) (simp add: sq_dist_def chan_diff_zero)

lemma paletteRGB_Some: "paletteRGB j = Some c \<longleftrightarrow> j < 64 \<and> c = triples palette ! j"
  by (auto simp: paletteRGB_def triples_palette_length)

text \<open>
  Claim C4. \<^verbatim>\<open>getColor\<close> is a function of its arguments: equal \<open>(r, g, b)\<close> give the
  same index. For any query it returns an index \<open>k\<close> in \<open>0..63\<close> whose palette entry
  is at least as near to the query as every entry and strictly nearer than every
  entry of lower index (ties go to the lowest index), whatever the metric. For a
  metric, which is 0 exactly between equal triples, calling it on the exact triple of
  palette entry \<open>i\<close> returns \<open>i\<close>, for every \<open>i\<close> in \<open>0..63\<close>.
\<close>

theorem getColor_nearest_match:
  "(\<exists>k c. k < 64 \<and> getColor dist qr qg qb = of_nat k \<and> paletteRGB k = Some c
       \<and> (\<forall>j c'. paletteRGB j = Some c' \<longrightarrow>
             dist (qr, qg, qb) c \<le> dist (qr, qg, qb) c'
             \<and> (j < k \<longrightarrow> dist (qr, qg, qb) c < dist (qr, qg, qb) c')))
   \<and> ((\<forall>p q. (dist p q = 0) = (p = q)) \<longrightarrow>
        (\<forall>i r g b. paletteRGB i = Some (r, g, b) \<longrightarrow>
           getColor dist r g b = of_nat i \<and> unat (getColor dist r g b) = i))
   \<and> (\<forall>r g b r' g' b'. (r, g, b) = (r', g', b') \<longrightarrow>
        getColor dist r g b = getColor dist r' g' b')"
proof -
  let ?cs = "triples palette"
  have ne: "?cs \<noteq> []" using triples_palette_length by auto
  have near: "\<exists>k c. k < 64 \<and> getColor dist r g b = of_nat k \<and> paletteRGB k = Some c
            \<and> (\<forall>j c'. paletteRGB j = Some c' \<longrightarrow>
                  dist (r, g, b) c \<le> dist (r, g, b) c'
                  \<and> (j < k \<longrightarrow> dist (r, g, b) c < dist (r, g, b) c'))" for r g b
  proof -
    from nearest_first[OF ne, of "dist (r, g, b)"] obtain k where k: "k < 64"
      and r: "nearest (dist (r, g, b)) ?cs 0 None = Some (k, dist (r, g, b) (?cs ! k))"
      and early: "\<forall>j < k. dist (r, g, b) (?cs ! k) < dist (r, g, b) (?cs ! j)"
      and all: "\<forall>j < 64. dist (r, g, b) (?cs ! k) \<le> dist (r, g, b) (?cs ! j)"
      by (auto simp: triples_palette_length)
    from r have "getColor dist r g b = of_nat k" by (simp add: getColor_def)
    with k early all show ?thesis by (auto simp: paletteRGB_Some)
  qed
  have trip: "getColor dist r g b = of_nat i \<and> unat (getColor dist r g b) = i"
    if metric: "\<forall>p q. (dist p q = 0) = (p = q)" and i: "paletteRGB i = Some (r, g, b)"
    for i r g b
  proof -
    from near[of r g b] obtain k c where k: "k < 64" and g: "getColor dist r g b = of_nat k"
      and c: "paletteRGB k = Some c"
      and le: "\<forall>j c'. paletteRGB j = Some c' \<longrightarrow> dist (r, g, b) c \<le> dist (r, g, b) c'"
      by blast
    from le i have "dist (r, g, b) c \<le> dist (r, g, b) (r, g, b)" by blast
    with metric have "c = (r, g, b)" by (metis le_zero_eq)
    with c i have same: "paletteRGB k = paletteRGB i" by simp
    from i have i64: "i < 64" by (simp add: paletteRGB_Some)
    have "inj_on paletteRGB (set [0..<64])"
      using palette_distinct by (simp only: distinct_map)
    with same k i64 have "k = i" by (auto simp: inj_on_def)
    with g i64 show ?thesis by (simp add: unat_of_nat)
  qed
  from near[of qr qg qb] trip show ?thesis by blast
qed



theorem getColor_nearest_match_witness:
  "(\<forall>p q. (sq_dist p q = 0) = (p = q))
   \<and> paletteRGB 27 = Some (0x55, 0xAA, 0xFF)
   \<and> getColor sq_dist 0x55 0xAA 0xFF = 27
   \<and> getColor sq_dist 0x2A 0 0 = 0
   \<and> sq_dist (0x2A, 0, 0) (0, 0, 0) < sq_dist (0x2A, 0, 0) (0x55, 0, 0)"
proof -
  have m: "\<forall>p q. (sq_dist p q = 0) = (p = q)" by (simp add: sq_dist_zero)
  have p: "paletteRGB 27 = Some (0x55, 0xAA, 0xFF)"
    by (simp add: paletteRGB_def palette_def)
  have q: "getColor sq_dist 0x2A 0 0 = 0"
    by (simp add: getColor_def palette_def sq_dist_def chan_diff_def)
  have d: "sq_dist (0x2A, 0, 0) (0, 0, 0) < sq_dist (0x2A, 0, 0) (0x55, 0, 0)"
    by (simp add: sq_dist_def chan_diff_def)
  from getColor_nearest_match[of sq_dist 0 0 0] m
  have "\<forall>i r g b. paletteRGB i = Some (r, g, b) \<longrightarrow>
          getColor sq_dist r g b = of_nat i \<and> unat (getColor sq_dist r g b) = i"
    by blast
  with p have "getColor sq_dist 0x55 0xAA 0xFF = of_nat 27" by blast
  then have "getColor sq_dist 0x55 0xAA 0xFF = 27" by simp
  with m p q d show ?thesis by blast
qed

end
